theory Spec2Isabelle
  imports Main "HOL-Library.Word" "HOL-Library.Signed_Division"
begin

unbundle bit_operations_syntax

chapter \<open>The program\<close>

section \<open>Machine types\<close>

text \<open>
  The C source works on \<open>int\<close> and \<open>atomic_int\<close> (32 bits, two's complement),
  \<open>int64_t\<close> and \<open>size_t\<close> (64 bits). They are words; signed comparisons are
  \<open><s\<close> and \<open>\<le>s\<close>, signed readings are \<open>sint\<close>. Signed overflow, which C leaves
  undefined, wraps around in the model; the theorems that depend on a value in such a
  case say so in a hypothesis. Pointers are addresses, \<open>0\<close> is \<open>NULL\<close>.
\<close>

type_synonym cint = "32 word"
type_synonym int64 = "64 word"
type_synonym size_t = "64 word"
type_synonym ptr = nat

definition NULL :: ptr where
  "NULL = 0"

section \<open>Adaptive spin lock: the spin budget\<close>

record AdaptiveSpinLock =
  lock :: cint
  contention_count :: cint
  max_spin :: cint

definition get_adaptive_spin_count :: "AdaptiveSpinLock \<Rightarrow> cint" where
  "get_adaptive_spin_count l =
     (let contention = contention_count l in
      if contention <s 10 then 20
      else if contention <s 100 then 40
      else 60)"

section \<open>Adaptive spin lock: acquisition\<close>

text \<open>
  \<open>adaptive_spinlock_acquire\<close> runs concurrently with other threads on the same
  lock. All its accesses to the lock are sequentially consistent atomic operations,
  so a run of the system is an interleaving of them. The function is a step function
  on the shared lock and the caller's frame (its position and local variables); each
  step is one atomic operation together with the local computation that follows it.
  \<open>pause\<close>, \<open>yield\<close> and \<open>sched_yield\<close> change neither. The flag \<open>spurious\<close>
  says that \<open>atomic_compare_exchange_weak\<close> fails although the lock word equals
  \<open>expected\<close>, as a weak compare-and-swap may.
\<close>

datatype acquire_pc =
  Acq_load_contention
  | Acq_cas
  | Acq_fetch_add
  | Acq_load_check
  | Acq_fetch_sub
  | Acq_return

record acquire_frame =
  acq_pc :: acquire_pc
  expected :: cint
  spin_count :: cint
  max_spin_v :: cint

text \<open>The frame on entry: \<open>expected = 0\<close>, \<open>spin_count = 0\<close>, \<open>max_spin\<close> not yet computed.\<close>

definition acquire_enter :: acquire_frame where
  "acquire_enter = \<lparr>acq_pc = Acq_load_contention, expected = 0, spin_count = 0, max_spin_v = 0\<rparr>"

definition acquire_step ::
  "bool \<Rightarrow> AdaptiveSpinLock \<Rightarrow> acquire_frame \<Rightarrow> AdaptiveSpinLock \<times> acquire_frame" where
  "acquire_step spurious l f =
     (case acq_pc f of
        Acq_load_contention \<Rightarrow>
          (l, f\<lparr>max_spin_v := get_adaptive_spin_count l, acq_pc := Acq_cas\<rparr>)
      | Acq_cas \<Rightarrow>
          (if lock l = expected f \<and> \<not> spurious then
             (l\<lparr>lock := 1\<rparr>, f\<lparr>acq_pc := Acq_load_check\<rparr>)
           else if spin_count f <s max_spin_v f then
             (l, f\<lparr>spin_count := spin_count f + 1, expected := 0, acq_pc := Acq_cas\<rparr>)
           else
             (l, f\<lparr>spin_count := spin_count f + 1, expected := lock l, acq_pc := Acq_fetch_add\<rparr>))
      | Acq_fetch_add \<Rightarrow>
          (l\<lparr>contention_count := contention_count l + 1\<rparr>,
           f\<lparr>spin_count := 0, expected := 0, acq_pc := Acq_cas\<rparr>)
      | Acq_load_check \<Rightarrow>
          (if 0 <s contention_count l then (l, f\<lparr>acq_pc := Acq_fetch_sub\<rparr>)
           else (l, f\<lparr>acq_pc := Acq_return\<rparr>))
      | Acq_fetch_sub \<Rightarrow>
          (l\<lparr>contention_count := contention_count l - 1\<rparr>, f\<lparr>acq_pc := Acq_return\<rparr>)
      | Acq_return \<Rightarrow> (l, f))"

text \<open>
  From the successful compare-and-swap on, the caller holds the lock: in the rest of
  \<open>adaptive_spinlock_acquire\<close> and after its return, until it releases.
\<close>

definition holds :: "acquire_frame \<Rightarrow> bool" where
  "holds f = (acq_pc f = Acq_load_check \<or> acq_pc f = Acq_fetch_sub \<or> acq_pc f = Acq_return)"

text \<open>
  Modelled from the spec: the source has no release function for \<open>AdaptiveSpinLock\<close>.
  The spec's \<open>release()\<close> atomically clears \<open>LOCKED\<close>; the lock word of the source
  is \<open>0\<close> (unlocked) or \<open>1\<close> (locked), so release stores \<open>0\<close>.
\<close>

definition adaptive_spinlock_release :: "AdaptiveSpinLock \<Rightarrow> AdaptiveSpinLock" where
  "adaptive_spinlock_release l = l\<lparr>lock := 0\<rparr>"

text \<open>
  The system: one lock and the threads that use it; a thread is outside any call
  (\<open>None\<close>) or has a frame of \<open>adaptive_spinlock_acquire\<close>, which it keeps after the
  return until it releases. An event is a thread calling acquire, a thread doing its
  next atomic step, or a thread that acquire has returned to calling release. An
  event that its thread cannot do leaves the system as it is.
\<close>

record lock_system =
  shared :: AdaptiveSpinLock
  threads :: "acquire_frame option list"

datatype event =
  Call_acquire nat
  | Step nat bool
  | Call_release nat

definition thread_at :: "lock_system \<Rightarrow> nat \<Rightarrow> acquire_frame option" where
  "thread_at s i = (if i < length (threads s) then threads s ! i else None)"

definition sys_step :: "event \<Rightarrow> lock_system \<Rightarrow> lock_system" where
  "sys_step e s =
     (case e of
        Call_acquire i \<Rightarrow>
          (if i < length (threads s) \<and> thread_at s i = None
           then s\<lparr>threads := (threads s)[i := Some acquire_enter]\<rparr>
           else s)
      | Step i spurious \<Rightarrow>
          (case thread_at s i of
             None \<Rightarrow> s
           | Some f \<Rightarrow>
               s\<lparr>shared := fst (acquire_step spurious (shared s) f),
                 threads := (threads s)[i := Some (snd (acquire_step spurious (shared s) f))]\<rparr>)
      | Call_release i \<Rightarrow>
          (case thread_at s i of
             None \<Rightarrow> s
           | Some f \<Rightarrow>
               if acq_pc f = Acq_return
               then s\<lparr>shared := adaptive_spinlock_release (shared s),
                      threads := (threads s)[i := None]\<rparr>
               else s))"

fun run :: "event list \<Rightarrow> lock_system \<Rightarrow> lock_system" where
  "run [] s = s"
| "run (e # es) s = run es (sys_step e s)"

text \<open>Initially the lock is unlocked and \<open>n\<close> threads are outside any call.\<close>

definition init_system :: "cint \<Rightarrow> cint \<Rightarrow> nat \<Rightarrow> lock_system" where
  "init_system c m n =
     \<lparr>shared = \<lparr>lock = 0, contention_count = c, max_spin = m\<rparr>, threads = replicate n None\<rparr>"

definition holding :: "lock_system \<Rightarrow> nat \<Rightarrow> bool" where
  "holding s i = (case thread_at s i of None \<Rightarrow> False | Some f \<Rightarrow> holds f)"

text \<open>
  The invariant of the system: a thread about to compare-and-swap expects \<open>0\<close>, and
  a thread that holds the lock sees the lock word \<open>1\<close> and is the only holder.
\<close>

definition frame_ok :: "acquire_frame \<Rightarrow> bool" where
  "frame_ok f = (acq_pc f = Acq_cas \<or> acq_pc f = Acq_load_contention \<longrightarrow> expected f = 0)"

definition lock_inv :: "lock_system \<Rightarrow> bool" where
  "lock_inv s = (\<forall>i f. thread_at s i = Some f \<longrightarrow>
      frame_ok f
    \<and> (holds f \<longrightarrow> lock (shared s) = 1 \<and> (\<forall>j g. thread_at s j = Some g \<and> holds g \<longrightarrow> j = i)))"

text \<open>
  \<open>n\<close> steps of one call with no step of another thread in between and no
  spurious failure of the compare-and-swap.
\<close>

fun acquire_alone ::
  "nat \<Rightarrow> AdaptiveSpinLock \<Rightarrow> acquire_frame \<Rightarrow> AdaptiveSpinLock \<times> acquire_frame" where
  "acquire_alone 0 l f = (l, f)"
| "acquire_alone (Suc n) l f =
     acquire_alone n (fst (acquire_step False l f)) (snd (acquire_step False l f))"

text \<open>
  The update of the contention estimate in the spec's words, for comparison with the
  source: an exponential moving average with weight 7/8 on the old value and 1/8 on
  the new sample, in integer arithmetic.
\<close>

definition ema_spec :: "int \<Rightarrow> int \<Rightarrow> int" where
  "ema_spec old_estimate sample = (7 * old_estimate + sample) div 8"

section \<open>Dynamic fairness timeout\<close>

record AdaptiveFairMutex =
  base_mutex :: "8 word"
  wait_time_avg :: cint
  fairness_timeout_us :: cint

text \<open>C's \<open>/\<close> on \<open>int64_t\<close>: the quotient is truncated towards zero.\<close>

definition sdiv64 :: "int64 \<Rightarrow> int64 \<Rightarrow> int64" where
  "sdiv64 a b = word_of_int (sint a sdiv sint b)"

text \<open>
  \<open>old_avg * 7\<close> is computed in \<open>int\<close>, widened to \<open>int64_t\<close> for the addition and
  the division, and the quotient is narrowed to \<open>int\<close> by the initialisation of
  \<open>new_avg\<close>.
\<close>

definition update_fairness_timeout :: "AdaptiveFairMutex \<Rightarrow> int64 \<Rightarrow> AdaptiveFairMutex" where
  "update_fairness_timeout mutex wait_time_us =
     (let old_avg = wait_time_avg mutex;
          new_avg = (ucast (sdiv64 (scast (old_avg * 7) + wait_time_us) 8) :: cint);
          mutex1 = mutex\<lparr>wait_time_avg := new_avg\<rparr>
      in if new_avg <s 100 then mutex1\<lparr>fairness_timeout_us := 500\<rparr>
         else if new_avg <s 1000 then mutex1\<lparr>fairness_timeout_us := 1000\<rparr>
         else mutex1\<lparr>fairness_timeout_us := 2000\<rparr>)"

section \<open>Lock-free task queue\<close>

text \<open>
  The queue is a linked list of \<open>TaskNode\<close>s in shared memory; \<open>nodes\<close> maps the
  address of each allocated node to its contents. \<open>next\<close> is the first member of
  \<open>TaskNode\<close>, so the address of a node is the address of its \<open>next\<close> link.
  (Reference counts of the task objects are not part of the state.)
\<close>

record TaskNode =
  node_next :: ptr
  node_task :: ptr

record LockFreeTaskQueue =
  q_head :: ptr
  q_tail :: ptr
  q_size :: cint

record memory =
  queue :: LockFreeTaskQueue
  nodes :: "ptr \<Rightarrow> TaskNode option"

text \<open>
  The pointer-sized locations that \<open>lockfree_enqueue\<close> hands to the atomic
  operations: \<open>&queue->tail\<close> and \<open>&a->next\<close> for a node address \<open>a\<close>. Reading
  or writing the \<open>next\<close> link of an address that holds no node has no defined
  result (\<open>None\<close>).
\<close>

datatype location =
  Tail_of_queue
  | Next_of ptr

definition load_ptr :: "memory \<Rightarrow> location \<Rightarrow> ptr option" where
  "load_ptr s x =
     (case x of
        Tail_of_queue \<Rightarrow> Some (q_tail (queue s))
      | Next_of a \<Rightarrow> (case nodes s a of None \<Rightarrow> None | Some n \<Rightarrow> Some (node_next n)))"

definition store_ptr :: "memory \<Rightarrow> location \<Rightarrow> ptr \<Rightarrow> memory option" where
  "store_ptr s x v =
     (case x of
        Tail_of_queue \<Rightarrow> Some (s\<lparr>queue := (queue s)\<lparr>q_tail := v\<rparr>\<rparr>)
      | Next_of a \<Rightarrow>
          (case nodes s a of
             None \<Rightarrow> None
           | Some n \<Rightarrow> Some (s\<lparr>nodes := (nodes s)(a \<mapsto> n\<lparr>node_next := v\<rparr>)\<rparr>)))"

text \<open>
  Modelled from the spec: \<open>_Py_atomic_compare_exchange_ptr (obj, expected, desired)\<close>
  is declared by the CPython headers that the file includes, not in the source. It is
  the spec's compare-and-swap with the calling convention of that interface, which the
  sibling call \<open>_Py_atomic_compare_exchange_uint8 (&m->_bits, &v, v|_Py_LOCKED)\<close> in
  \<open>balanced_optimization_plan.md\<close> shows: \<open>expected\<close> is the \<^emph>\<open>address\<close> of the
  expected value. The operation reads the pointer at \<open>expected\<close>; when \<open>obj\<close> holds
  that pointer it stores \<open>desired\<close> in \<open>obj\<close> and returns true, otherwise it stores
  the pointer that \<open>obj\<close> holds at \<open>expected\<close> and returns false. The address
  \<open>expected\<close> that \<open>lockfree_enqueue\<close> passes is \<open>NULL\<close> or the address of a node,
  that is, of the node's \<open>next\<close> link. Reading through \<open>NULL\<close> or through an address
  that holds no node is undefined behaviour (\<open>None\<close>).
\<close>

definition atomic_compare_exchange_ptr ::
  "memory \<Rightarrow> location \<Rightarrow> ptr \<Rightarrow> ptr \<Rightarrow> (bool \<times> memory) option" where
  "atomic_compare_exchange_ptr s obj exp_addr desired =
     (if exp_addr = NULL then None
      else
        (case load_ptr s (Next_of exp_addr) of
           None \<Rightarrow> None
         | Some e \<Rightarrow>
             (case load_ptr s obj of
                None \<Rightarrow> None
              | Some v \<Rightarrow>
                  if v = e then
                    (case store_ptr s obj desired of
                       None \<Rightarrow> None
                     | Some s' \<Rightarrow> Some (True, s'))
                  else
                    (case store_ptr s (Next_of exp_addr) v of
                       None \<Rightarrow> None
                     | Some s' \<Rightarrow> Some (False, s')))))"

text \<open>
  \<open>lockfree_enqueue\<close> as a step function on the shared memory and the caller's frame;
  each step is one atomic operation (or the allocation) with the local computation
  that follows it. \<open>alloc\<close> is what \<open>PyMem_Malloc\<close> returns: \<open>NULL\<close> or the address
  of a block not in use. \<open>Py_NewRef (task)\<close> reads and writes the object at \<open>task\<close>:
  with \<open>task = NULL\<close> that is undefined behaviour. \<open>Enq_trap\<close> stands for undefined
  behaviour: \<open>Py_NewRef (NULL)\<close>, reading \<open>prev_tail->next\<close> when \<open>prev_tail\<close> is not
  the address of a node, and a compare-and-swap with no defined result.
\<close>

datatype enqueue_pc =
  Enq_malloc
  | Enq_load_tail
  | Enq_load_next
  | Enq_recheck
  | Enq_cas_next
  | Enq_help
  | Enq_cas_tail
  | Enq_add_size
  | Enq_return cint
  | Enq_trap

record enqueue_frame =
  enq_pc :: enqueue_pc
  enq_task :: ptr
  enq_node :: ptr
  enq_prev_tail :: ptr
  enq_next :: ptr

definition enqueue_enter :: "ptr \<Rightarrow> enqueue_frame" where
  "enqueue_enter t =
     \<lparr>enq_pc = Enq_malloc, enq_task = t, enq_node = NULL, enq_prev_tail = NULL, enq_next = NULL\<rparr>"

definition enqueue_step :: "ptr \<Rightarrow> memory \<Rightarrow> enqueue_frame \<Rightarrow> memory \<times> enqueue_frame" where
  "enqueue_step alloc s f =
     (case enq_pc f of
        Enq_malloc \<Rightarrow>
          (if alloc = NULL then (s, f\<lparr>enq_pc := Enq_return (- 1)\<rparr>)
           else if enq_task f = NULL then (s, f\<lparr>enq_node := alloc, enq_pc := Enq_trap\<rparr>)
           else (s\<lparr>nodes := (nodes s)(alloc \<mapsto> \<lparr>node_next = NULL, node_task = enq_task f\<rparr>)\<rparr>,
                 f\<lparr>enq_node := alloc, enq_pc := Enq_load_tail\<rparr>))
      | Enq_load_tail \<Rightarrow>
          (s, f\<lparr>enq_prev_tail := q_tail (queue s), enq_pc := Enq_load_next\<rparr>)
      | Enq_load_next \<Rightarrow>
          (case load_ptr s (Next_of (enq_prev_tail f)) of
             None \<Rightarrow> (s, f\<lparr>enq_pc := Enq_trap\<rparr>)
           | Some v \<Rightarrow> (s, f\<lparr>enq_next := v, enq_pc := Enq_recheck\<rparr>))
      | Enq_recheck \<Rightarrow>
          (if enq_prev_tail f = q_tail (queue s) then
             (if enq_next f = NULL then (s, f\<lparr>enq_pc := Enq_cas_next\<rparr>)
              else (s, f\<lparr>enq_pc := Enq_help\<rparr>))
           else (s, f\<lparr>enq_pc := Enq_load_tail\<rparr>))
      | Enq_cas_next \<Rightarrow>
          (case atomic_compare_exchange_ptr s (Next_of (enq_prev_tail f)) NULL (enq_node f) of
             None \<Rightarrow> (s, f\<lparr>enq_pc := Enq_trap\<rparr>)
           | Some (ok, s') \<Rightarrow>
               if ok then (s', f\<lparr>enq_pc := Enq_cas_tail\<rparr>)
               else (s', f\<lparr>enq_pc := Enq_load_tail\<rparr>))
      | Enq_help \<Rightarrow>
          (case atomic_compare_exchange_ptr s Tail_of_queue (enq_prev_tail f) (enq_next f) of
             None \<Rightarrow> (s, f\<lparr>enq_pc := Enq_trap\<rparr>)
           | Some (ok, s') \<Rightarrow> (s', f\<lparr>enq_pc := Enq_load_tail\<rparr>))
      | Enq_cas_tail \<Rightarrow>
          (case atomic_compare_exchange_ptr s Tail_of_queue (enq_prev_tail f) (enq_node f) of
             None \<Rightarrow> (s, f\<lparr>enq_pc := Enq_trap\<rparr>)
           | Some (ok, s') \<Rightarrow> (s', f\<lparr>enq_pc := Enq_add_size\<rparr>))
      | Enq_add_size \<Rightarrow>
          (s\<lparr>queue := (queue s)\<lparr>q_size := q_size (queue s) + 1\<rparr>\<rparr>, f\<lparr>enq_pc := Enq_return 0\<rparr>)
      | Enq_return r \<Rightarrow> (s, f)
      | Enq_trap \<Rightarrow> (s, f))"

text \<open>\<open>n\<close> steps of one call with no step of another thread in between.\<close>

fun enqueue_alone :: "nat \<Rightarrow> ptr \<Rightarrow> memory \<Rightarrow> enqueue_frame \<Rightarrow> memory \<times> enqueue_frame" where
  "enqueue_alone 0 alloc s f = (s, f)"
| "enqueue_alone (Suc n) alloc s f =
     enqueue_alone n alloc (fst (enqueue_step alloc s f)) (snd (enqueue_step alloc s f))"

text \<open>
  Several callers: each has a frame; an entry \<open>(i, alloc)\<close> of the schedule lets
  caller \<open>i\<close> do its next step (\<open>alloc\<close> is used by the allocation step only).
\<close>

fun enqueue_run ::
  "(nat \<times> ptr) list \<Rightarrow> memory \<Rightarrow> enqueue_frame list \<Rightarrow> memory \<times> enqueue_frame list" where
  "enqueue_run [] s fs = (s, fs)"
| "enqueue_run ((i, alloc) # sched) s fs =
     (if i < length fs
      then enqueue_run sched (fst (enqueue_step alloc s (fs ! i)))
             (fs[i := snd (enqueue_step alloc s (fs ! i))])
      else enqueue_run sched s fs)"

text \<open>
  The positions of a call that has not passed the insertion compare-and-swap: every
  position but the final compare-and-swap on the tail, the increment of the size and the
  return of \<open>0\<close>.
\<close>

definition before_link :: "enqueue_frame \<Rightarrow> bool" where
  "before_link f =
     (enq_pc f \<noteq> Enq_cas_tail \<and> enq_pc f \<noteq> Enq_add_size \<and> enq_pc f \<noteq> Enq_return 0)"

section \<open>Batched collection of ready tasks\<close>

text \<open>
  Modelled from the spec: \<open>asyncio_state\<close> is used by \<open>collect_ready_tasks_batch\<close>
  but not declared in the source. Its ready queue is the source of ready items of the
  spec's \<open>collect\<close>: a FIFO sequence of object pointers.
\<close>

record asyncio_state =
  ready_queue :: "ptr list"

text \<open>
  Modelled from the spec: \<open>queue_is_empty\<close> is called but not defined in the source;
  the source of \<open>collect\<close> is empty when it holds no item.
\<close>

definition queue_is_empty :: "ptr list \<Rightarrow> bool" where
  "queue_is_empty q = (q = [])"

text \<open>
  Modelled from the spec: \<open>queue_pop\<close> is called but not defined in the source; it
  removes and returns the first item of the queue (\<open>NULL\<close> when there is none).
\<close>

definition queue_pop :: "ptr list \<Rightarrow> ptr \<times> ptr list" where
  "queue_pop q = (case q of [] \<Rightarrow> (NULL, []) | task # rest \<Rightarrow> (task, rest))"

definition BATCH_SIZE :: int where
  "BATCH_SIZE = 16"

text \<open>
  \<open>tasks\<close> is the array of \<open>BATCH_SIZE\<close> slots; \<open>count\<close> is an \<open>int\<close> that the
  loop keeps within \<open>0..BATCH_SIZE\<close>, so it never wraps.
\<close>

record TaskBatch =
  batch_tasks :: "ptr list"
  batch_count :: int

text \<open>The \<open>while\<close> loop of \<open>collect_ready_tasks_batch\<close>, inside the critical section.\<close>

function collect_loop :: "ptr list \<Rightarrow> TaskBatch \<Rightarrow> ptr list \<times> TaskBatch" where
  "collect_loop q batch =
     (if batch_count batch < BATCH_SIZE \<and> \<not> queue_is_empty q then
        (let task = fst (queue_pop q); q' = snd (queue_pop q) in
         if task \<noteq> NULL then
           collect_loop q'
             (batch\<lparr>batch_tasks := (batch_tasks batch)[nat (batch_count batch) := task],
                    batch_count := batch_count batch + 1\<rparr>)
         else collect_loop q' batch)
      else (q, batch))"
  by pat_completeness auto
termination
  by (relation "measure (\<lambda>(q, batch). length q)")
     (auto simp: queue_is_empty_def queue_pop_def split: list.splits)

text \<open>Returns the \<open>int\<close> result, the state with the queue as left, and the batch.\<close>

definition collect_ready_tasks_batch ::
  "asyncio_state \<Rightarrow> TaskBatch \<Rightarrow> int \<times> asyncio_state \<times> TaskBatch" where
  "collect_ready_tasks_batch state batch =
     (let batch0 = batch\<lparr>batch_count := 0\<rparr>;
          r = collect_loop (ready_queue state) batch0
      in (batch_count (snd r), state\<lparr>ready_queue := fst r\<rparr>, snd r))"

section \<open>Work-stealing queue\<close>

text \<open>
  \<open>tasks\<close> points to an array of \<open>capacity\<close> slots, \<open>top\<close> and \<open>bottom\<close> are
  \<open>atomic_int\<close>, \<open>capacity\<close> is a \<open>size_t\<close>. (The field \<open>top\<close> is named
  \<open>top_w\<close> here.)
\<close>

record WorkStealingQueue =
  tasks :: "ptr list"
  top_w :: cint
  bottom :: cint
  capacity :: size_t

text \<open>
  \<open>ws_push\<close> is called by the owning thread only; it reads \<open>top\<close> once and writes
  only \<open>tasks\<close> and \<open>bottom\<close>, which no other thread writes. In \<open>b - t >= capacity\<close>
  and \<open>b % capacity\<close> the \<open>int\<close> operand is converted to \<open>size_t\<close> (sign-extended)
  and the operation is unsigned.
\<close>

definition ws_push :: "WorkStealingQueue \<Rightarrow> ptr \<Rightarrow> cint \<times> WorkStealingQueue" where
  "ws_push q task =
     (let b = bottom q; t = top_w q in
      if capacity q \<le> (scast (b - t) :: size_t) then (- 1, q)
      else (0, q\<lparr>tasks := (tasks q)[unat ((scast b :: size_t) mod capacity q) := task],
                 bottom := b + 1\<rparr>))"

text \<open>
  \<open>ws_steal\<close> runs on any other thread, so the deque can change between its atomic
  operations. It is a step function on the shared deque and the thief's own position:
  each step is one access to shared memory together with the local computation that
  follows it. \<open>Steal_load_bottom t\<close> holds the loaded \<open>top\<close>; \<open>Steal_cas t task\<close>
  holds it with the task read from the slot; \<open>Steal_return r\<close> is the return of
  \<open>r\<close>. \<open>Steal_trap\<close> stands for the undefined behaviour of \<open>t % 0\<close> and of a read
  outside the array.
\<close>

datatype steal_pc =
  Steal_load_top
  | Steal_load_bottom cint
  | Steal_read_task cint
  | Steal_cas cint ptr
  | Steal_return ptr
  | Steal_trap

definition ws_steal_step :: "WorkStealingQueue \<Rightarrow> steal_pc \<Rightarrow> WorkStealingQueue \<times> steal_pc" where
  "ws_steal_step q pc =
     (case pc of
        Steal_load_top \<Rightarrow> (q, Steal_load_bottom (top_w q))
      | Steal_load_bottom t \<Rightarrow>
          (let b = bottom q in
           if b \<le>s t then (q, Steal_return NULL) else (q, Steal_read_task t))
      | Steal_read_task t \<Rightarrow>
          (let i = unat ((scast t :: size_t) mod capacity q) in
           if capacity q = 0 \<or> length (tasks q) \<le> i then (q, Steal_trap)
           else (q, Steal_cas t (tasks q ! i)))
      | Steal_cas t task \<Rightarrow>
          (if top_w q = t then (q\<lparr>top_w := t + 1\<rparr>, Steal_return task)
           else (q, Steal_return NULL))
      | Steal_return r \<Rightarrow> (q, Steal_return r)
      | Steal_trap \<Rightarrow> (q, Steal_trap))"

text \<open>A call of \<open>ws_steal\<close> that no other thread interleaves with: its four steps in a row.\<close>

definition ws_steal :: "WorkStealingQueue \<Rightarrow> WorkStealingQueue \<times> steal_pc" where
  "ws_steal q = ((\<lambda>(q', pc). ws_steal_step q' pc) ^^ 4) (q, Steal_load_top)"

chapter \<open>Properties\<close>

section \<open>Word arithmetic\<close>

lemma sint_succ:
  fixes b :: cint
  assumes "sint b < 2 ^ 31 - 1"
  shows "sint (b + 1) = sint b + 1"
proof -
  have "- (2 ^ 31) \<le> sint b" using sint_ge [of b] by simp
  then have "signed_take_bit 31 (sint b + 1) = sint b + 1"
    using assms by (intro signed_take_bit_int_eq_self) auto
  then show ?thesis by (simp add: sint_word_ariths)
qed

section \<open>Properties of the spin budget\<close>

lemma spin_count_cases:
  "get_adaptive_spin_count l = 20 \<and> contention_count l <s 10
   \<or> get_adaptive_spin_count l = 40 \<and> \<not> contention_count l <s 10 \<and> contention_count l <s 100
   \<or> get_adaptive_spin_count l = 60 \<and> \<not> contention_count l <s 100"
  by (simp add: get_adaptive_spin_count_def Let_def)

text \<open>
  Claim C4. For every value of the contention estimate the spin budget is one of the
  three tier values 20, 40 and 60 (below 10, below 100, otherwise), and the budget is
  monotonically nondecreasing in the contention estimate.
\<close>

theorem get_adaptive_spin_count_tiers_monotone:
  "get_adaptive_spin_count l =
     (if sint (contention_count l) < 10 then 20
      else if sint (contention_count l) < 100 then 40 else 60)
   \<and> get_adaptive_spin_count l \<in> {20, 40, 60}
   \<and> (sint (contention_count l) \<le> sint (contention_count l')
        \<longrightarrow> sint (get_adaptive_spin_count l) \<le> sint (get_adaptive_spin_count l'))"
  by (simp add: get_adaptive_spin_count_def Let_def word_sless_alt)

theorem get_adaptive_spin_count_tiers_monotone_witness:
  "sint (contention_count \<lparr>lock = 0, contention_count = 9, max_spin = 0\<rparr>)
     \<le> sint (contention_count \<lparr>lock = 0, contention_count = 10, max_spin = 0\<rparr>)
   \<and> get_adaptive_spin_count \<lparr>lock = 0, contention_count = 9, max_spin = 0\<rparr> = 20
   \<and> get_adaptive_spin_count \<lparr>lock = 0, contention_count = 10, max_spin = 0\<rparr> = 40
   \<and> sint (get_adaptive_spin_count \<lparr>lock = 0, contention_count = 9, max_spin = 0\<rparr>)
        \<le> sint (get_adaptive_spin_count \<lparr>lock = 0, contention_count = 10, max_spin = 0\<rparr>)"
proof -
  let ?a = "\<lparr>lock = 0, contention_count = 9, max_spin = 0\<rparr>"
  let ?b = "\<lparr>lock = 0, contention_count = 10, max_spin = 0\<rparr>"
  have h: "sint (contention_count ?a) \<le> sint (contention_count ?b)"
    by simp
  have a: "get_adaptive_spin_count ?a = 20"
    using get_adaptive_spin_count_tiers_monotone [of ?a ?a, THEN conjunct1] by simp
  have b: "get_adaptive_spin_count ?b = 40"
    using get_adaptive_spin_count_tiers_monotone [of ?b ?b, THEN conjunct1] by simp
  have m: "sint (get_adaptive_spin_count ?a) \<le> sint (get_adaptive_spin_count ?b)"
    using get_adaptive_spin_count_tiers_monotone
      [of ?a ?b, THEN conjunct2, THEN conjunct2, THEN mp, OF h] .
  show ?thesis using h a b m by blast
qed

section \<open>Properties of the adaptive spin lock\<close>

lemma thread_at_update:
  "thread_at (s\<lparr>threads := (threads s)[i := x]\<rparr>) j =
     (if j = i \<and> i < length (threads s) then x else thread_at s j)"
  by (simp add: thread_at_def)

lemma thread_at_shared [simp]:
  "thread_at (s\<lparr>shared := l\<rparr>) j = thread_at s j"
  by (simp add: thread_at_def)

lemma thread_at_Some_lt: "thread_at s i = Some f \<Longrightarrow> i < length (threads s)"
  by (simp add: thread_at_def split: if_splits)

lemma acquire_step_frame_ok:
  "frame_ok f \<Longrightarrow> frame_ok (snd (acquire_step sp l f))"
  by (cases "acq_pc f") (auto simp: frame_ok_def acquire_step_def)

lemma acquire_step_gets:
  "\<not> holds f \<Longrightarrow> holds (snd (acquire_step sp l f)) \<Longrightarrow>
   acq_pc f = Acq_cas \<and> lock l = expected f \<and> \<not> sp \<and> lock (fst (acquire_step sp l f)) = 1"
  by (cases "acq_pc f") (auto simp: holds_def acquire_step_def split: if_splits)

lemma acquire_step_keeps:
  "holds f \<Longrightarrow> holds (snd (acquire_step sp l f)) \<and> lock (fst (acquire_step sp l f)) = lock l"
  by (cases "acq_pc f") (auto simp: holds_def acquire_step_def split: if_splits)

lemma acquire_step_lock:
  "\<not> holds (snd (acquire_step sp l f)) \<Longrightarrow> lock (fst (acquire_step sp l f)) = lock l"
  by (cases "acq_pc f") (auto simp: holds_def acquire_step_def split: if_splits)

lemma lock_inv_init: "lock_inv (init_system c m n)"
  by (simp add: lock_inv_def init_system_def thread_at_def)

lemma lock_inv_step_thread:
  assumes inv: "lock_inv s" and f: "thread_at s i = Some f"
  shows "lock_inv (s\<lparr>shared := fst (acquire_step sp (shared s) f),
                 threads := (threads s)[i := Some (snd (acquire_step sp (shared s) f))]\<rparr>)"
    (is "lock_inv ?s'")
proof -
  let ?l = "shared s" and ?l' = "fst (acquire_step sp (shared s) f)"
  let ?f' = "snd (acquire_step sp (shared s) f)"
  have lt: "i < length (threads s)" using f by (rule thread_at_Some_lt)
  have at: "\<And>j. thread_at ?s' j = (if j = i then Some ?f' else thread_at s j)"
    using lt by (simp add: thread_at_def)
  have sh: "shared ?s' = ?l'" by simp
  have okf: "frame_ok f" using inv f by (auto simp: lock_inv_def)
  have new: "holds ?f' \<Longrightarrow> lock ?l' = 1"
  proof (cases "holds f")
    case True
    then show ?thesis using inv f acquire_step_keeps [OF True, of sp ?l] by (auto simp: lock_inv_def)
  next
    case False
    assume "holds ?f'"
    from acquire_step_gets [OF False this] show ?thesis by blast
  qed
  have other: "\<And>j g. j \<noteq> i \<Longrightarrow> thread_at s j = Some g \<Longrightarrow> holds g \<Longrightarrow> \<not> holds ?f' \<and> lock ?l' = 1"
  proof -
    fix j g assume j: "j \<noteq> i" "thread_at s j = Some g" "holds g"
    then have l1: "lock ?l = 1" and nf: "\<not> holds f" using inv f by (auto simp: lock_inv_def)
    have nh: "\<not> holds ?f'"
    proof
      assume "holds ?f'"
      from acquire_step_gets [OF nf this] okf l1 show False by (simp add: frame_ok_def)
    qed
    with acquire_step_lock [OF nh] l1 show "\<not> holds ?f' \<and> lock ?l' = 1" by simp
  qed
  show ?thesis
    unfolding lock_inv_def
  proof (intro allI impI)
    fix k g assume k: "thread_at ?s' k = Some g"
    show "frame_ok g \<and> (holds g \<longrightarrow> lock (shared ?s') = 1 \<and> (\<forall>j h. thread_at ?s' j = Some h \<and> holds h \<longrightarrow> j = k))"
    proof (cases "k = i")
      case True
      with k at have g: "g = ?f'" by simp
      have "frame_ok g" using okf by (simp add: g acquire_step_frame_ok)
      moreover have "holds g \<Longrightarrow> lock (shared ?s') = 1" using new by (simp add: g)
      moreover have "\<And>j h. holds g \<Longrightarrow> thread_at ?s' j = Some h \<Longrightarrow> holds h \<Longrightarrow> j = k"
        using other at True g by (metis)
      ultimately show ?thesis by blast
    next
      case False
      with k at have g: "thread_at s k = Some g" by simp
      have "frame_ok g" using inv g by (auto simp: lock_inv_def)
      moreover have "holds g \<Longrightarrow> lock (shared ?s') = 1" using other [OF False g] by simp
      moreover have "\<And>j h. holds g \<Longrightarrow> thread_at ?s' j = Some h \<Longrightarrow> holds h \<Longrightarrow> j = k"
      proof -
        fix j h assume hg: "holds g" and j: "thread_at ?s' j = Some h" "holds h"
        from other [OF False g hg] have nh: "\<not> holds ?f'" by simp
        with j at have "j \<noteq> i" by auto
        with j at have "thread_at s j = Some h" by simp
        with inv g hg j(2) show "j = k" by (auto simp: lock_inv_def)
      qed
      ultimately show ?thesis by blast
    qed
  qed
qed

lemma lock_inv_release:
  assumes inv: "lock_inv s" and f: "thread_at s i = Some f" and r: "acq_pc f = Acq_return"
  shows "lock_inv (s\<lparr>shared := adaptive_spinlock_release (shared s),
                 threads := (threads s)[i := None]\<rparr>)"
    (is "lock_inv ?s'")
proof -
  have lt: "i < length (threads s)" using f by (rule thread_at_Some_lt)
  have at: "\<And>j. thread_at ?s' j = (if j = i then None else thread_at s j)"
    using lt by (simp add: thread_at_def)
  have hf: "holds f" using r by (simp add: holds_def)
  show ?thesis
    unfolding lock_inv_def
  proof (intro allI impI)
    fix k g assume k: "thread_at ?s' k = Some g"
    then have ki: "k \<noteq> i" and g: "thread_at s k = Some g" using at by (auto split: if_splits)
    have ok: "frame_ok g" using inv g by (auto simp: lock_inv_def)
    have "\<not> holds g"
    proof
      assume "holds g"
      with inv f hf g have "k = i" by (auto simp: lock_inv_def)
      with ki show False by simp
    qed
    with ok show "frame_ok g \<and> (holds g \<longrightarrow> lock (shared ?s') = 1 \<and> (\<forall>j h. thread_at ?s' j = Some h \<and> holds h \<longrightarrow> j = k))"
      by simp
  qed
qed

lemma lock_inv_step: "lock_inv s \<Longrightarrow> lock_inv (sys_step e s)"
proof (cases e)
  case (Call_acquire i)
  assume "lock_inv s"
  then show ?thesis unfolding Call_acquire
    by (auto simp: lock_inv_def frame_ok_def sys_step_def thread_at_update acquire_enter_def holds_def split: if_splits)
next
  case (Step i sp)
  assume "lock_inv s"
  then show ?thesis unfolding Step
    using lock_inv_step_thread [of s i _ sp]
    by (auto simp: sys_step_def split: option.splits)
next
  case (Call_release i)
  assume "lock_inv s"
  then show ?thesis unfolding Call_release
    using lock_inv_release [of s i]
    by (auto simp: sys_step_def split: option.splits)
qed

lemma lock_inv_run: "lock_inv s \<Longrightarrow> lock_inv (run evs s)"
  by (induction evs arbitrary: s) (simp_all add: lock_inv_step)


lemma holding_step_cases:
  assumes inv: "lock_inv s" and nh: "\<not> holding s i" and h: "holding (sys_step e s) i"
  shows "e = Step i False \<and> lock (shared s) = 0 \<and> lock (shared (sys_step e s)) = 1"
proof (cases e)
  case (Call_acquire k)
  with nh h show ?thesis
    by (auto simp: holding_def sys_step_def thread_at_def nth_list_update acquire_enter_def holds_def
        split: if_splits option.splits)
next
  case (Call_release k)
  with nh h show ?thesis
    by (auto simp: holding_def sys_step_def thread_at_def nth_list_update
        split: if_splits option.splits)
next
  case (Step k sp)
  show ?thesis
  proof (cases "thread_at s k")
    case None
    with nh h Step show ?thesis by (simp add: sys_step_def)
  next
    case (Some f)
    let ?l' = "fst (acquire_step sp (shared s) f)" and ?f' = "snd (acquire_step sp (shared s) f)"
    have s': "sys_step e s = s\<lparr>shared := ?l', threads := (threads s)[k := Some ?f']\<rparr>"
      using Step Some by (simp add: sys_step_def)
    have lt: "k < length (threads s)" using Some by (rule thread_at_Some_lt)
    have ki: "k = i"
    proof (rule ccontr)
      assume "k \<noteq> i"
      then have "thread_at (sys_step e s) i = thread_at s i"
        by (simp add: s' thread_at_def)
      with nh h show False by (simp add: holding_def)
    qed
    have nf: "\<not> holds f" using nh Some ki by (simp add: holding_def)
    have hf': "holds ?f'" using h lt ki by (simp add: s' holding_def thread_at_def)
    have ok: "frame_ok f" using inv Some by (auto simp: lock_inv_def)
    from acquire_step_gets [OF nf hf'] ok
    have a: "\<not> sp" and b: "lock (shared s) = 0" and c: "lock ?l' = 1"
      by (auto simp: frame_ok_def)
    have d: "lock (shared (sys_step e s)) = 1"
      unfolding s' using c by simp
    have "e = Step i False" using Step ki a by simp
    with b d show ?thesis by blast
  qed
qed

lemma holding_unique:
  "lock_inv s \<Longrightarrow> holding s i \<Longrightarrow> holding s j \<Longrightarrow> i = j"
  by (auto simp: lock_inv_def holding_def split: option.splits)

lemma holding_locked:
  "lock_inv s \<Longrightarrow> holding s i \<Longrightarrow> lock (shared s) = 1"
  by (auto simp: lock_inv_def holding_def split: option.splits)

text \<open>
  Claim C1. In every state that the system reaches from the unlocked lock by any
  sequence of acquire calls, atomic steps of \<open>adaptive_spinlock_acquire\<close> and releases
  by the thread that acquire returned to, at most one thread holds the lock: two threads
  that hold it are the same thread, and the lock word is then \<open>1\<close>. A thread comes to
  hold the lock only by its own compare-and-swap step that does not fail, taken when
  the lock word is \<open>0\<close> and leaving it \<open>1\<close>; so acquire returns only after that step.
\<close>

theorem adaptive_spinlock_mutual_exclusion:
  "(holding (run evs (init_system c m n)) i \<and> holding (run evs (init_system c m n)) j \<longrightarrow> i = j)
   \<and> (holding (run evs (init_system c m n)) i \<longrightarrow> lock (shared (run evs (init_system c m n))) = 1)
   \<and> (\<not> holding (run evs (init_system c m n)) i
        \<and> holding (sys_step e (run evs (init_system c m n))) i \<longrightarrow>
       e = Step i False
       \<and> lock (shared (run evs (init_system c m n))) = 0
       \<and> lock (shared (sys_step e (run evs (init_system c m n)))) = 1)"
proof -
  have inv: "lock_inv (run evs (init_system c m n))"
    by (rule lock_inv_run) (rule lock_inv_init)
  show ?thesis
    using holding_unique [OF inv, of i j] holding_locked [OF inv, of i]
      holding_step_cases [OF inv, of i e]
    by blast
qed


lemma mutual_exclusion_example:
  "\<not> holding (run [Call_acquire 0, Call_acquire 1, Step 0 False, Step 1 False]
        (init_system 0 0 2)) 0
   \<and> holding (sys_step (Step 0 False)
        (run [Call_acquire 0, Call_acquire 1, Step 0 False, Step 1 False]
          (init_system 0 0 2))) 0"
  by (simp add: init_system_def sys_step_def thread_at_def acquire_step_def acquire_enter_def
      get_adaptive_spin_count_def holding_def holds_def Let_def)

lemma mutual_exclusion_example_holder:
  "holding (run [Call_acquire 0, Call_acquire 1, Step 0 False, Step 1 False, Step 0 False]
        (init_system 0 0 2)) 0"
  by (simp add: init_system_def sys_step_def thread_at_def acquire_step_def acquire_enter_def
      get_adaptive_spin_count_def holding_def holds_def Let_def)

theorem adaptive_spinlock_mutual_exclusion_witness:
  "\<not> holding (run [Call_acquire 0, Call_acquire 1, Step 0 False, Step 1 False]
        (init_system 0 0 2)) 0
   \<and> holding (sys_step (Step 0 False)
        (run [Call_acquire 0, Call_acquire 1, Step 0 False, Step 1 False]
          (init_system 0 0 2))) 0
   \<and> lock (shared (run [Call_acquire 0, Call_acquire 1, Step 0 False, Step 1 False]
        (init_system 0 0 2))) = 0
   \<and> lock (shared (sys_step (Step 0 False)
        (run [Call_acquire 0, Call_acquire 1, Step 0 False, Step 1 False]
          (init_system 0 0 2)))) = 1
   \<and> holding (run [Call_acquire 0, Call_acquire 1, Step 0 False, Step 1 False, Step 0 False]
        (init_system 0 0 2)) 0
   \<and> lock (shared (run [Call_acquire 0, Call_acquire 1, Step 0 False, Step 1 False,
        Step 0 False] (init_system 0 0 2))) = 1
   \<and> \<not> holding (run [Call_acquire 0, Call_acquire 1, Step 0 False, Step 1 False, Step 0 False]
        (init_system 0 0 2)) 1"
proof -
  let ?evs = "[Call_acquire 0, Call_acquire 1, Step 0 False, Step 1 False]"
  let ?evs' = "[Call_acquire 0, Call_acquire 1, Step 0 False, Step 1 False, Step 0 False]"
  have a: "lock (shared (run ?evs (init_system 0 0 2))) = 0
     \<and> lock (shared (sys_step (Step 0 False) (run ?evs (init_system 0 0 2)))) = 1"
    using adaptive_spinlock_mutual_exclusion [of ?evs 0 0 2 0 0 "Step 0 False",
        THEN conjunct2, THEN conjunct2, THEN mp, OF mutual_exclusion_example]
    by blast
  have b: "lock (shared (run ?evs' (init_system 0 0 2))) = 1"
    using adaptive_spinlock_mutual_exclusion [of ?evs' 0 0 2 0 0 "Step 0 False",
        THEN conjunct2, THEN conjunct1, THEN mp, OF mutual_exclusion_example_holder] .
  have c: "\<not> holding (run ?evs' (init_system 0 0 2)) 1"
  proof
    assume "holding (run ?evs' (init_system 0 0 2)) 1"
    with mutual_exclusion_example_holder
    have "holding (run ?evs' (init_system 0 0 2)) 0 \<and> holding (run ?evs' (init_system 0 0 2)) 1"
      by (rule conjI)
    from adaptive_spinlock_mutual_exclusion [of ?evs' 0 0 2 0 1 "Step 0 False",
        THEN conjunct1, THEN mp, OF this]
    show False by simp
  qed
  from mutual_exclusion_example a mutual_exclusion_example_holder b c show ?thesis by blast
qed

lemma acquire_step_exhausted:
  assumes "acq_pc f = Acq_cas" and "lock l \<noteq> expected f \<or> spurious"
    and "\<not> spin_count f <s max_spin_v f"
  shows "acquire_step spurious l f =
     (l, f\<lparr>spin_count := spin_count f + 1, expected := lock l, acq_pc := Acq_fetch_add\<rparr>)"
  using assms by (auto simp: acquire_step_def)

lemma acquire_step_fetch_add:
  assumes "acq_pc f = Acq_fetch_add"
  shows "acquire_step spurious l f =
     (l\<lparr>contention_count := contention_count l + 1\<rparr>,
      f\<lparr>spin_count := 0, expected := 0, acq_pc := Acq_cas\<rparr>)"
  using assms by (simp add: acquire_step_def)

text \<open>
  Claim C3, as the code has it. When the compare-and-swap fails and the spin budget is
  exhausted (\<open>spin_count < max_spin\<close> is false), the thread's next atomic operation
  adds one to the contention count; the lock word is changed by neither step (no
  \<open>HAS_PARKED\<close> mark), the thread does not park: after \<open>sched_yield\<close> it is back at
  the compare-and-swap with \<open>spin_count = 0\<close>, \<open>expected = 0\<close> and the spin budget it
  had. (\<open>l'\<close> is the lock as other threads have left it by the time of the
  \<open>atomic_fetch_add\<close>.)
\<close>

theorem acquire_spin_exhaustion_yields:
  "acq_pc f = Acq_cas \<and> (lock l \<noteq> expected f \<or> spurious) \<and> \<not> spin_count f <s max_spin_v f
   \<longrightarrow>
     fst (acquire_step spurious l f) = l
     \<and> acq_pc (snd (acquire_step spurious l f)) = Acq_fetch_add
     \<and> acquire_step spurious' l' (snd (acquire_step spurious l f)) =
         (l'\<lparr>contention_count := contention_count l' + 1\<rparr>,
          f\<lparr>spin_count := 0, expected := 0, acq_pc := Acq_cas\<rparr>)"
proof (intro impI)
  assume h: "acq_pc f = Acq_cas \<and> (lock l \<noteq> expected f \<or> spurious)
    \<and> \<not> spin_count f <s max_spin_v f"
  have s1: "acquire_step spurious l f =
     (l, f\<lparr>spin_count := spin_count f + 1, expected := lock l, acq_pc := Acq_fetch_add\<rparr>)"
    using h by (intro acquire_step_exhausted) simp_all
  have s2: "acquire_step spurious' l'
       (f\<lparr>spin_count := spin_count f + 1, expected := lock l, acq_pc := Acq_fetch_add\<rparr>) =
     (l'\<lparr>contention_count := contention_count l' + 1\<rparr>,
      f\<lparr>spin_count := 0, expected := 0, acq_pc := Acq_cas\<rparr>)"
    by (simp add: acquire_step_fetch_add)
  show "fst (acquire_step spurious l f) = l
     \<and> acq_pc (snd (acquire_step spurious l f)) = Acq_fetch_add
     \<and> acquire_step spurious' l' (snd (acquire_step spurious l f)) =
         (l'\<lparr>contention_count := contention_count l' + 1\<rparr>,
          f\<lparr>spin_count := 0, expected := 0, acq_pc := Acq_cas\<rparr>)"
    by (simp add: s1 s2)
qed

theorem acquire_spin_exhaustion_yields_witness:
  "acq_pc \<lparr>acq_pc = Acq_cas, expected = 0, spin_count = 20, max_spin_v = 20\<rparr> = Acq_cas
   \<and> lock \<lparr>lock = 1, contention_count = 3, max_spin = 0\<rparr>
        \<noteq> expected \<lparr>acq_pc = Acq_cas, expected = 0, spin_count = 20, max_spin_v = 20\<rparr>
   \<and> \<not> spin_count \<lparr>acq_pc = Acq_cas, expected = 0, spin_count = 20, max_spin_v = 20\<rparr>
          <s max_spin_v \<lparr>acq_pc = Acq_cas, expected = 0, spin_count = 20, max_spin_v = 20\<rparr>
   \<and> acquire_step False \<lparr>lock = 1, contention_count = 3, max_spin = 0\<rparr>
        (snd (acquire_step False \<lparr>lock = 1, contention_count = 3, max_spin = 0\<rparr>
               \<lparr>acq_pc = Acq_cas, expected = 0, spin_count = 20, max_spin_v = 20\<rparr>))
       = (\<lparr>lock = 1, contention_count = 4, max_spin = 0\<rparr>,
          \<lparr>acq_pc = Acq_cas, expected = 0, spin_count = 0, max_spin_v = 20\<rparr>)"
proof -
  let ?l = "\<lparr>lock = 1, contention_count = 3, max_spin = 0\<rparr>"
  let ?f = "\<lparr>acq_pc = Acq_cas, expected = 0, spin_count = 20, max_spin_v = 20\<rparr>"
  have h: "acq_pc ?f = Acq_cas \<and> (lock ?l \<noteq> expected ?f \<or> False)
    \<and> \<not> spin_count ?f <s max_spin_v ?f"
    by simp
  have "acquire_step False ?l (snd (acquire_step False ?l ?f)) =
         (?l\<lparr>contention_count := contention_count ?l + 1\<rparr>,
          ?f\<lparr>spin_count := 0, expected := 0, acq_pc := Acq_cas\<rparr>)"
    using acquire_spin_exhaustion_yields [of ?f ?l False False ?l, THEN mp, OF h] by blast
  then have "acquire_step False ?l (snd (acquire_step False ?l ?f)) =
       (\<lparr>lock = 1, contention_count = 4, max_spin = 0\<rparr>,
        \<lparr>acq_pc = Acq_cas, expected = 0, spin_count = 0, max_spin_v = 20\<rparr>)"
    by simp
  with h show ?thesis by simp
qed

text \<open>
  Claim C3 as stated fails: with the lock word \<open>1\<close> and the budget of 20 spins used
  up, the two steps after the failed compare-and-swap leave the lock word \<open>1\<close>, with
  no other bit set, and the thread at the compare-and-swap again, not parked.
\<close>

theorem acquire_spin_exhaustion_counterexample:
  "acquire_step False \<lparr>lock = 1, contention_count = 3, max_spin = 0\<rparr>
       \<lparr>acq_pc = Acq_cas, expected = 0, spin_count = 20, max_spin_v = 20\<rparr>
     = (\<lparr>lock = 1, contention_count = 3, max_spin = 0\<rparr>,
        \<lparr>acq_pc = Acq_fetch_add, expected = 1, spin_count = 21, max_spin_v = 20\<rparr>)
   \<and> acquire_step False \<lparr>lock = 1, contention_count = 3, max_spin = 0\<rparr>
       \<lparr>acq_pc = Acq_fetch_add, expected = 1, spin_count = 21, max_spin_v = 20\<rparr>
     = (\<lparr>lock = 1, contention_count = 4, max_spin = 0\<rparr>,
        \<lparr>acq_pc = Acq_cas, expected = 0, spin_count = 0, max_spin_v = 20\<rparr>)"
  by (simp add: acquire_step_def)

section \<open>Properties of the fairness timeout\<close>

lemma update_fairness_timeout_tier:
  "fairness_timeout_us (update_fairness_timeout m w) =
     (if sint (wait_time_avg (update_fairness_timeout m w)) < 100 then 500
      else if sint (wait_time_avg (update_fairness_timeout m w)) < 1000 then 1000
      else 2000)"
  by (simp add: update_fairness_timeout_def Let_def word_sless_alt)

lemma sint_times7:
  fixes a :: cint
  assumes "0 \<le> sint a" "sint a < 2 ^ 28"
  shows "sint (a * 7) = 7 * sint a"
proof -
  have "signed_take_bit 31 (sint a * 7) = sint a * 7"
    using assms by (intro signed_take_bit_int_eq_self) auto
  then show ?thesis by (simp add: sint_word_ariths)
qed

lemma wait_time_avg_update:
  "wait_time_avg (update_fairness_timeout m w)
     = ucast (sdiv64 (scast (wait_time_avg m * 7) + w) 8)"
  by (simp add: update_fairness_timeout_def Let_def)

lemma update_fairness_timeout_result:
  "update_fairness_timeout m w =
     m\<lparr>wait_time_avg := ucast (sdiv64 (scast (wait_time_avg m * 7) + w) 8),
       fairness_timeout_us :=
         (if sint (ucast (sdiv64 (scast (wait_time_avg m * 7) + w) 8) :: cint) < 100 then 500
          else if sint (ucast (sdiv64 (scast (wait_time_avg m * 7) + w) 8) :: cint) < 1000 then 1000
          else 2000)\<rparr>"
  by (simp add: update_fairness_timeout_def Let_def word_sless_alt)

lemma update_fairness_timeout_average:
  assumes m: "- (2 ^ 31) \<le> 7 * sint (wait_time_avg m)" "7 * sint (wait_time_avg m) < 2 ^ 31"
    and a: "- (2 ^ 63) \<le> 7 * sint (wait_time_avg m) + sint w"
      "7 * sint (wait_time_avg m) + sint w < 2 ^ 63"
    and q: "- (2 ^ 31) \<le> (7 * sint (wait_time_avg m) + sint w) sdiv 8"
      "(7 * sint (wait_time_avg m) + sint w) sdiv 8 < 2 ^ 31"
  shows "sint (wait_time_avg (update_fairness_timeout m w))
     = (7 * sint (wait_time_avg m) + sint w) sdiv 8"
proof -
  let ?a = "wait_time_avg m"
  let ?k = "7 * sint ?a + sint w"
  let ?x = "scast (?a * 7) :: int64"
  have "signed_take_bit 31 (sint ?a * 7) = sint ?a * 7"
    using m by (intro signed_take_bit_int_eq_self) auto
  then have s7: "sint (?a * 7) = 7 * sint ?a" by (simp add: sint_word_ariths)
  have "signed_take_bit 63 (7 * sint ?a) = 7 * sint ?a"
    using m by (intro signed_take_bit_int_eq_self) auto
  then have x: "sint ?x = 7 * sint ?a"
    by (simp add: signed_scast_eq s7)
  have "signed_take_bit 63 ?k = ?k"
    using a by (intro signed_take_bit_int_eq_self) auto
  then have y: "sint (?x + w) = ?k"
    by (simp add: sint_word_ariths x)
  have d: "sdiv64 (?x + w) 8 = word_of_int (?k sdiv 8)"
    by (simp add: sdiv64_def y)
  have u: "uint (sdiv64 (?x + w) 8) = take_bit 64 (?k sdiv 8)"
    by (simp add: d uint_word_of_int take_bit_eq_mod)
  have "signed_take_bit 31 (take_bit 64 (?k sdiv 8)) = signed_take_bit 31 (?k sdiv 8)"
    by (simp add: signed_take_bit_take_bit)
  also have "\<dots> = ?k sdiv 8"
    using q by (intro signed_take_bit_int_eq_self) auto
  finally have "sint (ucast (sdiv64 (?x + w) 8) :: cint) = ?k sdiv 8"
    by (simp add: signed_ucast_eq u)
  then show ?thesis by (simp only: wait_time_avg_update)
qed

text \<open>
  Claim C6. For every wait-time sample, \<open>update_fairness_timeout\<close> stores the updated
  average \<open>(old_avg * 7 + wait_time_us) / 8\<close> and the timeout that is a function of
  that updated average (500 when the average is below 100, 1000 when it is below 1000,
  otherwise 2000), and changes nothing else. The updated average is computed as C
  does: the product in \<open>int\<close>, the sum and the quotient truncated towards zero in
  \<open>int64_t\<close>, narrowed to \<open>int\<close>; whenever none of these steps overflows it is the
  integer \<open>(7 * old + sample) sdiv 8\<close>. The timeout is monotonically nondecreasing in
  the updated average and always lies within 500 and 2000.
\<close>

theorem update_fairness_timeout_clamped_monotone:
  "update_fairness_timeout m w =
     m\<lparr>wait_time_avg := ucast (sdiv64 (scast (wait_time_avg m * 7) + w) 8),
       fairness_timeout_us :=
         (if sint (ucast (sdiv64 (scast (wait_time_avg m * 7) + w) 8) :: cint) < 100 then 500
          else if sint (ucast (sdiv64 (scast (wait_time_avg m * 7) + w) 8) :: cint) < 1000 then 1000
          else 2000)\<rparr>
   \<and> (- (2 ^ 31) \<le> 7 * sint (wait_time_avg m) \<and> 7 * sint (wait_time_avg m) < 2 ^ 31
       \<and> - (2 ^ 63) \<le> 7 * sint (wait_time_avg m) + sint w
       \<and> 7 * sint (wait_time_avg m) + sint w < 2 ^ 63
       \<and> - (2 ^ 31) \<le> (7 * sint (wait_time_avg m) + sint w) sdiv 8
       \<and> (7 * sint (wait_time_avg m) + sint w) sdiv 8 < 2 ^ 31
       \<longrightarrow> sint (wait_time_avg (update_fairness_timeout m w))
           = (7 * sint (wait_time_avg m) + sint w) sdiv 8)
   \<and> fairness_timeout_us (update_fairness_timeout m w) =
     (if sint (wait_time_avg (update_fairness_timeout m w)) < 100 then 500
      else if sint (wait_time_avg (update_fairness_timeout m w)) < 1000 then 1000
      else 2000)
   \<and> 500 \<le> sint (fairness_timeout_us (update_fairness_timeout m w))
   \<and> sint (fairness_timeout_us (update_fairness_timeout m w)) \<le> 2000
   \<and> (sint (wait_time_avg (update_fairness_timeout m w))
         \<le> sint (wait_time_avg (update_fairness_timeout m' w'))
       \<longrightarrow> sint (fairness_timeout_us (update_fairness_timeout m w))
         \<le> sint (fairness_timeout_us (update_fairness_timeout m' w')))"
proof -
  have t: "fairness_timeout_us (update_fairness_timeout m w) =
     (if sint (wait_time_avg (update_fairness_timeout m w)) < 100 then 500
      else if sint (wait_time_avg (update_fairness_timeout m w)) < 1000 then 1000
      else 2000)"
    by (rule update_fairness_timeout_tier)
  have t': "fairness_timeout_us (update_fairness_timeout m' w') =
     (if sint (wait_time_avg (update_fairness_timeout m' w')) < 100 then 500
      else if sint (wait_time_avg (update_fairness_timeout m' w')) < 1000 then 1000
      else 2000)"
    by (rule update_fairness_timeout_tier)
  have lo: "500 \<le> sint (fairness_timeout_us (update_fairness_timeout m w))"
    by (simp add: t)
  have hi: "sint (fairness_timeout_us (update_fairness_timeout m w)) \<le> 2000"
    by (simp add: t)
  have mono: "sint (wait_time_avg (update_fairness_timeout m w))
         \<le> sint (wait_time_avg (update_fairness_timeout m' w'))
       \<longrightarrow> sint (fairness_timeout_us (update_fairness_timeout m w))
         \<le> sint (fairness_timeout_us (update_fairness_timeout m' w'))"
    by (simp add: t t')
  have avg: "- (2 ^ 31) \<le> 7 * sint (wait_time_avg m) \<and> 7 * sint (wait_time_avg m) < 2 ^ 31
       \<and> - (2 ^ 63) \<le> 7 * sint (wait_time_avg m) + sint w
       \<and> 7 * sint (wait_time_avg m) + sint w < 2 ^ 63
       \<and> - (2 ^ 31) \<le> (7 * sint (wait_time_avg m) + sint w) sdiv 8
       \<and> (7 * sint (wait_time_avg m) + sint w) sdiv 8 < 2 ^ 31
       \<longrightarrow> sint (wait_time_avg (update_fairness_timeout m w))
           = (7 * sint (wait_time_avg m) + sint w) sdiv 8"
    using update_fairness_timeout_average [of m w] by blast
  from update_fairness_timeout_result [of m w] avg t lo hi mono show ?thesis by blast
qed

lemma update_fairness_timeout_ex1:
  "update_fairness_timeout \<lparr>base_mutex = 0, wait_time_avg = 80, fairness_timeout_us = 1000\<rparr> 40
     = \<lparr>base_mutex = 0, wait_time_avg = 75, fairness_timeout_us = 500\<rparr>"
  by (simp add: update_fairness_timeout_def sdiv64_def Let_def)

lemma update_fairness_timeout_ex2:
  "update_fairness_timeout \<lparr>base_mutex = 0, wait_time_avg = 80, fairness_timeout_us = 1000\<rparr> 8000
     = \<lparr>base_mutex = 0, wait_time_avg = 1070, fairness_timeout_us = 2000\<rparr>"
  by (simp add: update_fairness_timeout_def sdiv64_def Let_def)

theorem update_fairness_timeout_clamped_monotone_witness:
  "sint (wait_time_avg (update_fairness_timeout
       \<lparr>base_mutex = 0, wait_time_avg = 80, fairness_timeout_us = 1000\<rparr> 40))
     \<le> sint (wait_time_avg (update_fairness_timeout
       \<lparr>base_mutex = 0, wait_time_avg = 80, fairness_timeout_us = 1000\<rparr> 8000))
   \<and> sint (fairness_timeout_us (update_fairness_timeout
       \<lparr>base_mutex = 0, wait_time_avg = 80, fairness_timeout_us = 1000\<rparr> 40))
     \<le> sint (fairness_timeout_us (update_fairness_timeout
       \<lparr>base_mutex = 0, wait_time_avg = 80, fairness_timeout_us = 1000\<rparr> 8000))
   \<and> (7 * sint (wait_time_avg \<lparr>base_mutex = 0, wait_time_avg = 80, fairness_timeout_us = 1000\<rparr>)
        + sint (8000 :: int64)) sdiv 8 < 2 ^ 31
   \<and> sint (wait_time_avg (update_fairness_timeout
       \<lparr>base_mutex = 0, wait_time_avg = 80, fairness_timeout_us = 1000\<rparr> 8000)) = 1070
   \<and> update_fairness_timeout
       \<lparr>base_mutex = 0, wait_time_avg = 80, fairness_timeout_us = 1000\<rparr> 8000
     = \<lparr>base_mutex = 0, wait_time_avg = 1070, fairness_timeout_us = 2000\<rparr>"
proof -
  let ?m = "\<lparr>base_mutex = 0, wait_time_avg = 80, fairness_timeout_us = 1000\<rparr>"
  note t = update_fairness_timeout_clamped_monotone [of ?m 8000 ?m 40]
  have h: "sint (wait_time_avg (update_fairness_timeout ?m 40))
     \<le> sint (wait_time_avg (update_fairness_timeout ?m 8000))"
    by (simp add: update_fairness_timeout_ex1 update_fairness_timeout_ex2)
  have c: "sint (fairness_timeout_us (update_fairness_timeout ?m 40))
     \<le> sint (fairness_timeout_us (update_fairness_timeout ?m 8000))"
    using update_fairness_timeout_clamped_monotone [of ?m 40 ?m 8000] h by blast
  have k: "- (2 ^ 31) \<le> 7 * sint (wait_time_avg ?m) \<and> 7 * sint (wait_time_avg ?m) < 2 ^ 31
       \<and> - (2 ^ 63) \<le> 7 * sint (wait_time_avg ?m) + sint (8000 :: int64)
       \<and> 7 * sint (wait_time_avg ?m) + sint (8000 :: int64) < 2 ^ 63
       \<and> - (2 ^ 31) \<le> (7 * sint (wait_time_avg ?m) + sint (8000 :: int64)) sdiv 8
       \<and> (7 * sint (wait_time_avg ?m) + sint (8000 :: int64)) sdiv 8 < 2 ^ 31"
    by simp
  have "sint (wait_time_avg (update_fairness_timeout ?m 8000))
      = (7 * sint (wait_time_avg ?m) + sint (8000 :: int64)) sdiv 8"
    using t k by blast
  then have a: "sint (wait_time_avg (update_fairness_timeout ?m 8000)) = 1070"
    by simp
  have r: "update_fairness_timeout ?m 8000
     = \<lparr>base_mutex = 0, wait_time_avg = 1070, fairness_timeout_us = 2000\<rparr>"
    by (rule update_fairness_timeout_ex2)
  from h c k a r show ?thesis by blast
qed

lemma update_fairness_timeout_ema:
  assumes a0: "0 \<le> sint (wait_time_avg m)" and a1: "sint (wait_time_avg m) < 2 ^ 28"
    and w0: "0 \<le> sint w" and w1: "sint w < 2 ^ 31"
  shows "sint (wait_time_avg (update_fairness_timeout m w))
     = (7 * sint (wait_time_avg m) + sint w) div 8"
proof -
  let ?a = "wait_time_avg m"
  let ?k = "7 * sint ?a + sint w"
  let ?x = "scast (?a * 7) :: int64"
  have k0: "0 \<le> ?k" and k1: "?k < 2 ^ 32" using a0 a1 w0 w1 by auto
  have q0: "0 \<le> ?k div 8" using k0 by simp
  have q1: "?k div 8 < 2 ^ 31" using k0 a1 w1 by auto
  have s7: "sint (?a * 7) = 7 * sint ?a" using a0 a1 by (rule sint_times7)
  have "signed_take_bit 63 (7 * sint ?a) = 7 * sint ?a"
    using a0 a1 by (intro signed_take_bit_int_eq_self) auto
  then have x: "sint ?x = 7 * sint ?a"
    by (simp add: signed_scast_eq s7)
  have "signed_take_bit 63 ?k = ?k"
    using k0 k1 by (intro signed_take_bit_int_eq_self) auto
  then have y: "sint (?x + w) = ?k"
    by (simp add: sint_word_ariths x)
  have sd: "?k sdiv 8 = ?k div 8"
    using k0 by (simp add: signed_divide_int_def sgn_if)
  have d: "sdiv64 (?x + w) 8 = word_of_int (?k div 8)"
    by (simp add: sdiv64_def y sd)
  have "take_bit 64 (?k div 8) = ?k div 8"
    using q0 q1 by (intro take_bit_int_eq_self) auto
  then have u: "uint (sdiv64 (?x + w) 8) = ?k div 8"
    by (simp add: d uint_word_of_int take_bit_eq_mod)
  have "signed_take_bit 31 (?k div 8) = ?k div 8"
    using q0 q1 by (intro signed_take_bit_int_eq_self) auto
  then have "sint (ucast (sdiv64 (?x + w) 8) :: cint) = ?k div 8"
    by (simp add: signed_ucast_eq u)
  then show ?thesis by (simp only: wait_time_avg_update)
qed

lemma acquire_step_contention:
  "contention_count (fst (acquire_step spurious l f)) =
     (if acq_pc f = Acq_fetch_add then contention_count l + 1
      else if acq_pc f = Acq_fetch_sub then contention_count l - 1
      else contention_count l)"
  by (cases "acq_pc f") (simp_all add: acquire_step_def)

lemma acquire_alone_add:
  "acquire_alone (m + n) l f =
     acquire_alone n (fst (acquire_alone m l f)) (snd (acquire_alone m l f))"
  by (induction m arbitrary: l f) simp_all

lemma acquire_step_to_fetch_add_iff:
  "acq_pc (snd (acquire_step spurious l f)) = Acq_fetch_add \<longleftrightarrow>
   acq_pc f = Acq_cas \<and> (lock l \<noteq> expected f \<or> spurious) \<and> \<not> spin_count f <s max_spin_v f"
  by (cases "acq_pc f") (auto simp: acquire_step_def split: if_splits)

lemma acquire_step_to_fetch_sub_iff:
  "acq_pc (snd (acquire_step spurious l f)) = Acq_fetch_sub \<longleftrightarrow>
   acq_pc f = Acq_load_check \<and> 0 <s contention_count l"
  by (cases "acq_pc f") (auto simp: acquire_step_def split: if_splits)

lemma acquire_step_to_load_check_iff:
  "acq_pc (snd (acquire_step spurious l f)) = Acq_load_check \<longleftrightarrow>
   acq_pc f = Acq_cas \<and> lock l = expected f \<and> \<not> spurious"
  by (cases "acq_pc f") (auto simp: acquire_step_def split: if_splits)

lemma acquire_alone_uncontended:
  assumes "lock l = 0"
  shows "acquire_alone 4 l acquire_enter =
     (l\<lparr>lock := 1,
        contention_count := (if 0 <s contention_count l then contention_count l - 1
                             else contention_count l)\<rparr>,
      \<lparr>acq_pc = Acq_return, expected = 0, spin_count = 0,
        max_spin_v = get_adaptive_spin_count l\<rparr>)"
  using assms
  by (simp add: numeral_eq_Suc acquire_step_def acquire_enter_def)

lemma acquire_alone_spin:
  assumes "acq_pc f = Acq_cas" and "expected f = 0" and "lock l \<noteq> 0"
    and "sint (spin_count f) = int i" and "sint (max_spin_v f) = int b" and "i + k = b"
  shows "acquire_alone k l f = (l, f\<lparr>spin_count := spin_count f + of_nat k\<rparr>)"
  using assms
proof (induction k arbitrary: f i)
  case 0
  then show ?case by simp
next
  case (Suc k)
  have lt: "spin_count f <s max_spin_v f"
    using Suc.prems by (simp add: word_sless_alt)
  have st: "acquire_step False l f = (l, f\<lparr>spin_count := spin_count f + 1\<rparr>)"
    using Suc.prems(1-3) lt by (simp add: acquire_step_def)
  have "sint (max_spin_v f) < 2 ^ 31" using sint_lt [of "max_spin_v f"] by simp
  then have "sint (spin_count f) < 2 ^ 31 - 1" using Suc.prems by simp
  then have s1: "sint (spin_count f + 1) = int (Suc i)"
    using sint_succ [of "spin_count f"] Suc.prems(4) by simp
  have "acquire_alone k l (f\<lparr>spin_count := spin_count f + 1\<rparr>)
      = (l, f\<lparr>spin_count := spin_count f + 1\<rparr>\<lparr>spin_count := spin_count (f\<lparr>spin_count := spin_count f + 1\<rparr>) + of_nat k\<rparr>)"
    using Suc.prems s1 by (intro Suc.IH [where i = "Suc i"]) simp_all
  then show ?case by (simp add: st add.assoc)
qed

lemma acquire_alone_contended:
  assumes "lock l \<noteq> 0"
  shows "acquire_alone (nat (sint (get_adaptive_spin_count l)) + 3) l acquire_enter =
     (l\<lparr>contention_count := contention_count l + 1\<rparr>,
      \<lparr>acq_pc = Acq_cas, expected = 0, spin_count = 0,
        max_spin_v = get_adaptive_spin_count l\<rparr>)"
proof -
  let ?b = "get_adaptive_spin_count l"
  let ?g = "\<lparr>acq_pc = Acq_cas, expected = 0, spin_count = 0, max_spin_v = ?b\<rparr>"
  have b0: "0 \<le> sint ?b" by (simp add: get_adaptive_spin_count_def Let_def)
  have bw: "of_nat (nat (sint ?b)) = ?b" by (simp add: get_adaptive_spin_count_def Let_def)
  have e: "acquire_alone 1 l acquire_enter = (l, ?g)"
    by (simp add: acquire_step_def acquire_enter_def)
  have sp: "acquire_alone (nat (sint ?b)) l ?g = (l, ?g\<lparr>spin_count := spin_count ?g + of_nat (nat (sint ?b))\<rparr>)"
    using assms b0 by (intro acquire_alone_spin [where i = 0 and b = "nat (sint ?b)"]) simp_all
  then have sp': "acquire_alone (nat (sint ?b)) l ?g = (l, ?g\<lparr>spin_count := ?b\<rparr>)"
    by (simp add: bw)
  have x: "acquire_alone 2 l (?g\<lparr>spin_count := ?b\<rparr>) =
     (l\<lparr>contention_count := contention_count l + 1\<rparr>, ?g)"
    using assms by (simp add: numeral_eq_Suc acquire_step_def)
  have "nat (sint ?b) + 3 = 1 + (nat (sint ?b) + 2)" by simp
  then show ?thesis
    by (simp only: acquire_alone_add e sp' x fst_conv snd_conv)
qed

text \<open>
  Claim C5, as the code has it. The contention estimate that the spin budget is
  computed from is a counter. A step of acquire changes it only by adding exactly one
  (\<open>atomic_fetch_add\<close>) or by subtracting exactly one (\<open>atomic_fetch_sub\<close>). The
  addition is the caller's next step exactly when its compare-and-swap has failed with
  the spin budget exhausted; the subtraction is its next step exactly when, after its
  successful compare-and-swap, it has loaded a positive count. So a call that finds
  the lock held and runs alone has, after its budget of failed attempts and one more,
  added exactly one and is spinning again; and a call that finds the lock free and runs
  alone returns with the count one lower when it was positive and unchanged otherwise.
  The moving average with weights 7/8 and 1/8 is what \<open>update_fairness_timeout\<close>
  applies to the average wait time: for a nonnegative average below \<open>2^28\<close> and a
  nonnegative sample below \<open>2^31\<close> the new average is \<open>(7 * old + sample) div 8\<close>.
\<close>

theorem contention_count_additive:
  "contention_count (fst (acquire_step spurious l f)) =
     (if acq_pc f = Acq_fetch_add then contention_count l + 1
      else if acq_pc f = Acq_fetch_sub then contention_count l - 1
      else contention_count l)
   \<and> (acq_pc (snd (acquire_step spurious l f)) = Acq_fetch_add \<longleftrightarrow>
        acq_pc f = Acq_cas \<and> (lock l \<noteq> expected f \<or> spurious)
        \<and> \<not> spin_count f <s max_spin_v f)
   \<and> (acq_pc (snd (acquire_step spurious l f)) = Acq_fetch_sub \<longleftrightarrow>
        acq_pc f = Acq_load_check \<and> 0 <s contention_count l)
   \<and> (acq_pc (snd (acquire_step spurious l f)) = Acq_load_check \<longleftrightarrow>
        acq_pc f = Acq_cas \<and> lock l = expected f \<and> \<not> spurious)
   \<and> (lock l \<noteq> 0 \<longrightarrow>
        acquire_alone (nat (sint (get_adaptive_spin_count l)) + 3) l acquire_enter =
          (l\<lparr>contention_count := contention_count l + 1\<rparr>,
           \<lparr>acq_pc = Acq_cas, expected = 0, spin_count = 0,
             max_spin_v = get_adaptive_spin_count l\<rparr>))
   \<and> (lock l = 0 \<longrightarrow>
        acquire_alone 4 l acquire_enter =
          (l\<lparr>lock := 1,
             contention_count := (if 0 <s contention_count l then contention_count l - 1
                                  else contention_count l)\<rparr>,
           \<lparr>acq_pc = Acq_return, expected = 0, spin_count = 0,
             max_spin_v = get_adaptive_spin_count l\<rparr>))
   \<and> (0 \<le> sint (wait_time_avg m) \<and> sint (wait_time_avg m) < 2 ^ 28
        \<and> 0 \<le> sint w \<and> sint w < 2 ^ 31 \<longrightarrow>
       sint (wait_time_avg (update_fairness_timeout m w))
         = ema_spec (sint (wait_time_avg m)) (sint w))"
proof -
  have e: "0 \<le> sint (wait_time_avg m) \<and> sint (wait_time_avg m) < 2 ^ 28
        \<and> 0 \<le> sint w \<and> sint w < 2 ^ 31 \<longrightarrow>
       sint (wait_time_avg (update_fairness_timeout m w))
         = ema_spec (sint (wait_time_avg m)) (sint w)"
    using update_fairness_timeout_ema [of m w] unfolding ema_spec_def by blast
  from acquire_step_contention [of spurious l f]
    acquire_step_to_fetch_add_iff [of spurious l f]
    acquire_step_to_fetch_sub_iff [of spurious l f]
    acquire_step_to_load_check_iff [of spurious l f]
    acquire_alone_contended [of l] acquire_alone_uncontended [of l] e
  show ?thesis by blast
qed

theorem contention_count_additive_witness:
  "lock \<lparr>lock = 1, contention_count = 16, max_spin = 0\<rparr> \<noteq> 0
   \<and> acquire_alone 43 \<lparr>lock = 1, contention_count = 16, max_spin = 0\<rparr> acquire_enter
      = (\<lparr>lock = 1, contention_count = 17, max_spin = 0\<rparr>,
         \<lparr>acq_pc = Acq_cas, expected = 0, spin_count = 0, max_spin_v = 40\<rparr>)
   \<and> lock \<lparr>lock = 0, contention_count = 16, max_spin = 0\<rparr> = 0
   \<and> acquire_alone 4 \<lparr>lock = 0, contention_count = 16, max_spin = 0\<rparr> acquire_enter
      = (\<lparr>lock = 1, contention_count = 15, max_spin = 0\<rparr>,
         \<lparr>acq_pc = Acq_return, expected = 0, spin_count = 0, max_spin_v = 40\<rparr>)
   \<and> 0 \<le> sint (wait_time_avg \<lparr>base_mutex = 0, wait_time_avg = 80, fairness_timeout_us = 1000\<rparr>)
   \<and> sint (wait_time_avg (update_fairness_timeout
        \<lparr>base_mutex = 0, wait_time_avg = 80, fairness_timeout_us = 1000\<rparr> 40))
       = ema_spec 80 40"
proof -
  let ?l = "\<lparr>lock = 1, contention_count = 16, max_spin = 0\<rparr>"
  let ?u = "\<lparr>lock = 0, contention_count = 16, max_spin = 0\<rparr>"
  let ?f = "acquire_enter"
  let ?m = "\<lparr>base_mutex = 0, wait_time_avg = 80, fairness_timeout_us = 1000\<rparr>"
  note t = contention_count_additive [of False ?l ?f ?m 40]
  note u = contention_count_additive [of False ?u ?f ?m 40]
  have b: "get_adaptive_spin_count ?l = 40"
    by (simp add: get_adaptive_spin_count_def Let_def)
  have b': "get_adaptive_spin_count ?u = 40"
    by (simp add: get_adaptive_spin_count_def Let_def)
  have h1: "lock ?l \<noteq> 0" by simp
  have "acquire_alone (nat (sint (get_adaptive_spin_count ?l)) + 3) ?l acquire_enter =
          (?l\<lparr>contention_count := contention_count ?l + 1\<rparr>,
           \<lparr>acq_pc = Acq_cas, expected = 0, spin_count = 0,
             max_spin_v = get_adaptive_spin_count ?l\<rparr>)"
    using t h1 by blast
  then have c1: "acquire_alone 43 ?l acquire_enter
      = (\<lparr>lock = 1, contention_count = 17, max_spin = 0\<rparr>,
         \<lparr>acq_pc = Acq_cas, expected = 0, spin_count = 0, max_spin_v = 40\<rparr>)"
    by (simp add: b)
  have h3: "lock ?u = 0" by simp
  have "acquire_alone 4 ?u acquire_enter =
          (?u\<lparr>lock := 1,
             contention_count := (if 0 <s contention_count ?u then contention_count ?u - 1
                                  else contention_count ?u)\<rparr>,
           \<lparr>acq_pc = Acq_return, expected = 0, spin_count = 0,
             max_spin_v = get_adaptive_spin_count ?u\<rparr>)"
    using u h3 by blast
  then have c3: "acquire_alone 4 ?u acquire_enter
      = (\<lparr>lock = 1, contention_count = 15, max_spin = 0\<rparr>,
         \<lparr>acq_pc = Acq_return, expected = 0, spin_count = 0, max_spin_v = 40\<rparr>)"
    by (simp add: b' word_sless_alt)
  have h2: "0 \<le> sint (wait_time_avg ?m) \<and> sint (wait_time_avg ?m) < 2 ^ 28
        \<and> 0 \<le> sint (40 :: int64) \<and> sint (40 :: int64) < 2 ^ 31"
    by simp
  have "sint (wait_time_avg (update_fairness_timeout ?m 40))
         = ema_spec (sint (wait_time_avg ?m)) (sint (40 :: int64))"
    using t h2 by blast
  then have c2: "sint (wait_time_avg (update_fairness_timeout ?m 40)) = ema_spec 80 40"
    by simp
  from h1 c1 h3 c3 h2 c2 show ?thesis by blast
qed

text \<open>
  Claim C5 as stated fails: an acquisition of an unlocked lock with contention
  estimate 16 returns after four steps with the estimate 15, where the moving average
  of 16 with the sample 0 of an uncontended acquisition is 14.
\<close>

theorem contention_count_ema_counterexample:
  "acquire_alone 4 \<lparr>lock = 0, contention_count = 16, max_spin = 0\<rparr> acquire_enter
     = (\<lparr>lock = 1, contention_count = 15, max_spin = 0\<rparr>,
        \<lparr>acq_pc = Acq_return, expected = 0, spin_count = 0, max_spin_v = 40\<rparr>)
   \<and> ema_spec 16 0 = 14"
  by (simp add: numeral_eq_Suc acquire_step_def acquire_enter_def get_adaptive_spin_count_def
      Let_def ema_spec_def word_sless_alt)

section \<open>Properties of the lock-free task queue\<close>

lemma cas_through_NULL: "atomic_compare_exchange_ptr s obj NULL desired = None"
  by (simp add: atomic_compare_exchange_ptr_def)

lemma enqueue_step_cas_next:
  "enq_pc f = Enq_cas_next \<Longrightarrow> enqueue_step alloc s f = (s, f\<lparr>enq_pc := Enq_trap\<rparr>)"
  by (simp add: enqueue_step_def cas_through_NULL)






lemma before_link_step:
  "before_link f \<Longrightarrow> before_link (snd (enqueue_step alloc s f))"
  by (cases "enq_pc f")
     (auto simp: before_link_def enqueue_step_def cas_through_NULL split: option.splits if_splits prod.splits)

lemma before_link_enter: "before_link (enqueue_enter t)"
  by (simp add: before_link_def enqueue_enter_def)

lemma before_link_alone:
  "before_link f \<Longrightarrow> before_link (snd (enqueue_alone n alloc s f))"
  by (induction n arbitrary: s f) (simp_all add: before_link_step)

lemma before_link_run:
  "list_all before_link fs \<Longrightarrow> list_all before_link (snd (enqueue_run sched s fs))"
proof (induction sched arbitrary: s fs)
  case Nil
  then show ?case by simp
next
  case (Cons a sched)
  obtain i alloc where a: "a = (i, alloc)" by (cases a)
  show ?case
  proof (cases "i < length fs")
    case True
    then have "before_link (fs ! i)" using Cons.prems by (simp add: list_all_length)
    then have "before_link (snd (enqueue_step alloc s (fs ! i)))" by (rule before_link_step)
    then have "list_all before_link (fs[i := snd (enqueue_step alloc s (fs ! i))])"
      using Cons.prems True by (simp add: list_all_length nth_list_update)
    then show ?thesis using True a by (simp add: Cons.IH)
  next
    case False
    then show ?thesis using a Cons by simp
  qed
qed

lemma enqueue_alone_returned:
  "enq_pc f = Enq_return r \<or> enq_pc f = Enq_trap \<Longrightarrow> enqueue_alone n alloc s f = (s, f)"
  by (induction n) (auto simp: enqueue_step_def)

lemma enqueue_alone_add:
  "enqueue_alone (m + n) alloc s f =
     enqueue_alone n alloc (fst (enqueue_alone m alloc s f)) (snd (enqueue_alone m alloc s f))"
  by (induction m arbitrary: s f) simp_all

lemma enqueue_alone_failure:
  "enqueue_alone (Suc k) NULL s (enqueue_enter t) =
     (s, (enqueue_enter t)\<lparr>enq_pc := Enq_return (- 1)\<rparr>)"
  by (simp add: enqueue_step_def enqueue_enter_def enqueue_alone_returned)

lemma enqueue_alone_traps:
  assumes a: "alloc \<noteq> NULL" and t: "t \<noteq> NULL" and fresh: "nodes s alloc = None"
    and last: "load_ptr s (Next_of (q_tail (queue s))) = Some NULL"
  shows "enqueue_alone (5 + k) alloc s (enqueue_enter t) =
     (s\<lparr>nodes := (nodes s)(alloc \<mapsto> \<lparr>node_next = NULL, node_task = t\<rparr>)\<rparr>,
      \<lparr>enq_pc = Enq_trap, enq_task = t, enq_node = alloc,
        enq_prev_tail = q_tail (queue s), enq_next = NULL\<rparr>)"
proof -
  obtain n where n: "nodes s (q_tail (queue s)) = Some n" and nn: "node_next n = NULL"
    using last by (auto simp: load_ptr_def split: option.splits)
  have ne: "q_tail (queue s) \<noteq> alloc" using fresh n by auto
  have "enqueue_alone 5 alloc s (enqueue_enter t) =
     (s\<lparr>nodes := (nodes s)(alloc \<mapsto> \<lparr>node_next = NULL, node_task = t\<rparr>)\<rparr>,
      \<lparr>enq_pc = Enq_trap, enq_task = t, enq_node = alloc,
        enq_prev_tail = q_tail (queue s), enq_next = NULL\<rparr>)"
    using a t n nn ne
    by (simp add: numeral_eq_Suc enqueue_step_def enqueue_enter_def load_ptr_def cas_through_NULL)
  then show ?thesis
    by (simp only: enqueue_alone_add fst_conv snd_conv) (simp add: enqueue_alone_returned)
qed

lemma enqueue_step_returns_failure:
  "enq_pc (snd (enqueue_step alloc s f)) = Enq_return (- 1) \<Longrightarrow> enq_pc f \<noteq> Enq_return (- 1) \<Longrightarrow>
   enq_pc f = Enq_malloc \<and> alloc = NULL \<and> fst (enqueue_step alloc s f) = s"
  by (cases "enq_pc f")
     (auto simp: enqueue_step_def cas_through_NULL split: option.splits if_splits prod.splits)

lemma enqueue_run_never_returns_0:
  "Enq_return 0 \<notin> set (map enq_pc (snd (enqueue_run sched s (map enqueue_enter ts))))"
proof -
  have "list_all before_link (map enqueue_enter ts)"
    by (simp add: list_all_iff before_link_enter)
  then have "list_all before_link (snd (enqueue_run sched s (map enqueue_enter ts)))"
    by (rule before_link_run)
  then show ?thesis by (auto simp: list_all_iff before_link_def)
qed

lemma enqueue_alone_never_returns_0:
  "enq_pc (snd (enqueue_alone n alloc s (enqueue_enter t))) \<noteq> Enq_return 0"
  using before_link_alone [OF before_link_enter, where n = n and alloc = alloc and s = s and t1 = t]
  by (simp add: before_link_def)

text \<open>
  What the helping call does with the observed tail passed where the address of the
  expected value belongs: it compares the tail pointer with the \<open>next\<close> link of the
  observed tail node, and when they differ it overwrites that link with the tail pointer.
\<close>

lemma enqueue_step_help_effect:
  assumes "enq_pc f = Enq_help" and "enq_prev_tail f \<noteq> NULL"
    and "nodes s (enq_prev_tail f) = Some n"
  shows "enqueue_step alloc s f =
     (if q_tail (queue s) = node_next n
      then s\<lparr>queue := (queue s)\<lparr>q_tail := enq_next f\<rparr>\<rparr>
      else s\<lparr>nodes := (nodes s)(enq_prev_tail f \<mapsto> n\<lparr>node_next := q_tail (queue s)\<rparr>)\<rparr>,
      f\<lparr>enq_pc := Enq_load_tail\<rparr>)"
  using assms
  by (simp add: enqueue_step_def atomic_compare_exchange_ptr_def load_ptr_def store_ptr_def)




text \<open>
  Claim C8, on the code. A call of \<open>lockfree_enqueue\<close> whose allocation fails returns
  \<open>-1\<close> at once and leaves the memory (head, tail, size and all nodes) unchanged, and
  a step returns \<open>-1\<close> only as that failed allocation. But a call whose allocation
  succeeds does not return \<open>0\<close>: run alone with a task on a queue whose tail pointer is
  at the last node, it allocates and fills its node, loads the tail and its \<open>NULL\<close>
  link, and at the insertion compare-and-swap, which is given \<open>NULL\<close> where the
  address of the expected value belongs, runs into undefined behaviour, with the node
  not linked and head, tail and size as they were; and no call, alone or in any
  interleaving of callers, ever reaches the return of \<open>0\<close>.
\<close>

theorem lockfree_enqueue_success_unreachable:
  "enqueue_alone (Suc k) NULL s (enqueue_enter t) =
     (s, (enqueue_enter t)\<lparr>enq_pc := Enq_return (- 1)\<rparr>)
   \<and> (enq_pc (snd (enqueue_step alloc s f)) = Enq_return (- 1) \<and> enq_pc f \<noteq> Enq_return (- 1)
        \<longrightarrow> enq_pc f = Enq_malloc \<and> alloc = NULL \<and> fst (enqueue_step alloc s f) = s)
   \<and> (alloc \<noteq> NULL \<and> t \<noteq> NULL \<and> nodes s alloc = None
        \<and> load_ptr s (Next_of (q_tail (queue s))) = Some NULL \<longrightarrow>
      enqueue_alone (5 + k) alloc s (enqueue_enter t) =
        (s\<lparr>nodes := (nodes s)(alloc \<mapsto> \<lparr>node_next = NULL, node_task = t\<rparr>)\<rparr>,
         \<lparr>enq_pc = Enq_trap, enq_task = t, enq_node = alloc,
           enq_prev_tail = q_tail (queue s), enq_next = NULL\<rparr>))
   \<and> enq_pc (snd (enqueue_alone n alloc s (enqueue_enter t))) \<noteq> Enq_return 0
   \<and> Enq_return 0 \<notin> set (map enq_pc (snd (enqueue_run sched s (map enqueue_enter ts))))"
  using enqueue_alone_failure [of k s t] enqueue_step_returns_failure [of alloc s f]
    enqueue_alone_traps [of alloc t s k] enqueue_alone_never_returns_0 [of n alloc s t]
    enqueue_run_never_returns_0 [of sched s ts]
  by blast

theorem lockfree_enqueue_success_unreachable_witness:
  "(2 :: ptr) \<noteq> NULL \<and> (7 :: ptr) \<noteq> NULL
   \<and> nodes \<lparr>queue = \<lparr>q_head = 1, q_tail = 1, q_size = 0\<rparr>,
        nodes = [1 \<mapsto> \<lparr>node_next = NULL, node_task = NULL\<rparr>]\<rparr> 2 = None
   \<and> load_ptr \<lparr>queue = \<lparr>q_head = 1, q_tail = 1, q_size = 0\<rparr>,
        nodes = [1 \<mapsto> \<lparr>node_next = NULL, node_task = NULL\<rparr>]\<rparr>
        (Next_of (q_tail (queue \<lparr>queue = \<lparr>q_head = 1, q_tail = 1, q_size = 0\<rparr>,
        nodes = [1 \<mapsto> \<lparr>node_next = NULL, node_task = NULL\<rparr>]\<rparr>))) = Some NULL
   \<and> enqueue_alone 5 2 \<lparr>queue = \<lparr>q_head = 1, q_tail = 1, q_size = 0\<rparr>,
        nodes = [1 \<mapsto> \<lparr>node_next = NULL, node_task = NULL\<rparr>]\<rparr> (enqueue_enter 7)
     = (\<lparr>queue = \<lparr>q_head = 1, q_tail = 1, q_size = 0\<rparr>,
         nodes = [1 \<mapsto> \<lparr>node_next = NULL, node_task = NULL\<rparr>,
                  2 \<mapsto> \<lparr>node_next = NULL, node_task = 7\<rparr>]\<rparr>,
        \<lparr>enq_pc = Enq_trap, enq_task = 7, enq_node = 2, enq_prev_tail = 1, enq_next = NULL\<rparr>)
   \<and> enq_pc (snd (enqueue_step 0 \<lparr>queue = \<lparr>q_head = 1, q_tail = 1, q_size = 0\<rparr>,
        nodes = [1 \<mapsto> \<lparr>node_next = NULL, node_task = NULL\<rparr>]\<rparr> (enqueue_enter 7)))
       = Enq_return (- 1)
   \<and> fst (enqueue_step 0 \<lparr>queue = \<lparr>q_head = 1, q_tail = 1, q_size = 0\<rparr>,
        nodes = [1 \<mapsto> \<lparr>node_next = NULL, node_task = NULL\<rparr>]\<rparr> (enqueue_enter 7))
       = \<lparr>queue = \<lparr>q_head = 1, q_tail = 1, q_size = 0\<rparr>,
        nodes = [1 \<mapsto> \<lparr>node_next = NULL, node_task = NULL\<rparr>]\<rparr>"
proof -
  let ?s = "\<lparr>queue = \<lparr>q_head = 1, q_tail = 1, q_size = 0\<rparr>,
        nodes = [1 \<mapsto> \<lparr>node_next = NULL, node_task = NULL\<rparr>]\<rparr>"
  note t = lockfree_enqueue_success_unreachable [of 0 ?s 7 2 "enqueue_enter 7" 0 "[]" "[]"]
  note u = lockfree_enqueue_success_unreachable [of 0 ?s 7 0 "enqueue_enter 7" 0 "[]" "[]"]
  have h: "(2 :: ptr) \<noteq> NULL \<and> (7 :: ptr) \<noteq> NULL \<and> nodes ?s 2 = None
      \<and> load_ptr ?s (Next_of (q_tail (queue ?s))) = Some NULL"
    by (simp add: NULL_def load_ptr_def)
  have "enqueue_alone (5 + 0) 2 ?s (enqueue_enter 7) =
        (?s\<lparr>nodes := (nodes ?s)(2 \<mapsto> \<lparr>node_next = NULL, node_task = 7\<rparr>)\<rparr>,
         \<lparr>enq_pc = Enq_trap, enq_task = 7, enq_node = 2,
           enq_prev_tail = q_tail (queue ?s), enq_next = NULL\<rparr>)"
    using t h by blast
  then have w1: "enqueue_alone 5 2 ?s (enqueue_enter 7)
     = (\<lparr>queue = \<lparr>q_head = 1, q_tail = 1, q_size = 0\<rparr>,
         nodes = [1 \<mapsto> \<lparr>node_next = NULL, node_task = NULL\<rparr>,
                  2 \<mapsto> \<lparr>node_next = NULL, node_task = 7\<rparr>]\<rparr>,
        \<lparr>enq_pc = Enq_trap, enq_task = 7, enq_node = 2, enq_prev_tail = 1, enq_next = NULL\<rparr>)"
    by simp
  have h2: "enq_pc (snd (enqueue_step 0 ?s (enqueue_enter 7))) = Enq_return (- 1)
      \<and> enq_pc (enqueue_enter 7) \<noteq> Enq_return (- 1)"
    by (simp add: enqueue_step_def enqueue_enter_def NULL_def)
  have w2: "fst (enqueue_step 0 ?s (enqueue_enter 7)) = ?s"
    using u h2 by blast
  from h w1 h2 w2 show ?thesis by blast
qed

section \<open>Properties of the batched collection\<close>

declare collect_loop.simps [simp del]

lemma collect_loop_count_le:
  "batch_count batch \<le> 16 \<Longrightarrow> batch_count (snd (collect_loop q batch)) \<le> 16"
proof (induction q batch rule: collect_loop.induct)
  case (1 q batch)
  then show ?case
    by (subst collect_loop.simps) (auto simp: BATCH_SIZE_def Let_def)
qed

lemma collect_loop_short_empty:
  "batch_count (snd (collect_loop q batch)) < 16 \<Longrightarrow> fst (collect_loop q batch) = []"
proof (induction q batch rule: collect_loop.induct)
  case (1 q batch)
  from 1(3) show ?case
    apply (subst collect_loop.simps)
    apply (subst (asm) collect_loop.simps)
    using 1(1,2)
    apply (auto simp: BATCH_SIZE_def Let_def queue_is_empty_def split: if_splits)
    done
qed

lemma collect_loop_queue:
  "NULL \<notin> set q \<Longrightarrow> fst (collect_loop q batch) = drop (nat (16 - batch_count batch)) q"
proof (induction q batch rule: collect_loop.induct)
  case (1 q batch)
  show ?case
  proof (cases "batch_count batch < BATCH_SIZE \<and> \<not> queue_is_empty q")
    case False
    then show ?thesis
      by (subst collect_loop.simps) (auto simp: BATCH_SIZE_def queue_is_empty_def)
  next
    case True
    then obtain x xs where q: "q = x # xs" by (cases q) (auto simp: queue_is_empty_def)
    have x: "x \<noteq> NULL" and xs: "NULL \<notin> set xs" using 1(3) q by auto
    have pop: "queue_pop q = (x, xs)" by (simp add: q queue_pop_def)
    have "fst (collect_loop q batch) = fst (collect_loop xs (batch\<lparr>batch_tasks := (batch_tasks batch)[nat (batch_count batch) := x],
                    batch_count := batch_count batch + 1\<rparr>))"
      using True x by (subst collect_loop.simps) (simp add: pop Let_def)
    also have "\<dots> = drop (nat (16 - (batch_count batch + 1))) xs"
      using 1(1)[OF True refl refl _ ] x xs pop by (simp add: Let_def)
    also have "\<dots> = drop (nat (16 - batch_count batch)) q"
    proof -
      have "nat (16 - batch_count batch) = Suc (nat (16 - (batch_count batch + 1)))" using True by (auto simp: BATCH_SIZE_def)
      then show ?thesis by (simp add: q)
    qed
    finally show ?thesis .
  qed
qed
lemma collect_loop_count:
  "NULL \<notin> set q \<Longrightarrow> batch_count batch \<le> 16 \<Longrightarrow>
   batch_count (snd (collect_loop q batch)) = min 16 (batch_count batch + int (length q))"
proof (induction q batch rule: collect_loop.induct)
  case (1 q batch)
  show ?case
  proof (cases "batch_count batch < BATCH_SIZE \<and> \<not> queue_is_empty q")
    case False
    then show ?thesis using 1(4)
      by (subst collect_loop.simps) (auto simp: BATCH_SIZE_def queue_is_empty_def)
  next
    case True
    then obtain x xs where q: "q = x # xs" by (cases q) (auto simp: queue_is_empty_def)
    have x: "x \<noteq> NULL" and xs: "NULL \<notin> set xs" using 1(3) q by auto
    have pop: "queue_pop q = (x, xs)" by (simp add: q queue_pop_def)
    let ?b = "batch\<lparr>batch_tasks := (batch_tasks batch)[nat (batch_count batch) := x],
                    batch_count := batch_count batch + 1\<rparr>"
    have "batch_count (snd (collect_loop q batch)) = batch_count (snd (collect_loop xs ?b))"
      using True x by (subst collect_loop.simps) (simp add: pop Let_def)
    also have "\<dots> = min 16 (batch_count ?b + int (length xs))"
      using 1(1)[OF True refl refl _ ] x xs pop True by (simp add: Let_def BATCH_SIZE_def)
    also have "\<dots> = min 16 (batch_count batch + int (length q))"
      by (simp add: q)
    finally show ?thesis .
  qed
qed

lemma collect_loop_tasks:
  "NULL \<notin> set q \<Longrightarrow> 0 \<le> batch_count batch \<Longrightarrow> batch_count batch \<le> 16 \<Longrightarrow>
   length (batch_tasks batch) = 16 \<Longrightarrow>
   take (nat (batch_count (snd (collect_loop q batch)))) (batch_tasks (snd (collect_loop q batch)))
     = take (nat (batch_count batch)) (batch_tasks batch) @ take (nat (16 - batch_count batch)) q"
proof (induction q batch rule: collect_loop.induct)
  case (1 q batch)
  show ?case
  proof (cases "batch_count batch < BATCH_SIZE \<and> \<not> queue_is_empty q")
    case False
    then show ?thesis using 1(4-)
      by (subst (1 2) collect_loop.simps) (auto simp: BATCH_SIZE_def queue_is_empty_def)
  next
    case True
    then obtain x xs where q: "q = x # xs" by (cases q) (auto simp: queue_is_empty_def)
    have x: "x \<noteq> NULL" and xs: "NULL \<notin> set xs" using 1(3) q by auto
    have pop: "queue_pop q = (x, xs)" by (simp add: q queue_pop_def)
    let ?b = "batch\<lparr>batch_tasks := (batch_tasks batch)[nat (batch_count batch) := x],
                    batch_count := batch_count batch + 1\<rparr>"
    have step: "collect_loop q batch = collect_loop xs ?b"
      using True x by (subst collect_loop.simps) (simp add: pop Let_def)
    have lt: "nat (batch_count batch) < 16" using True 1(4) by (auto simp: BATCH_SIZE_def)
    have "take (nat (batch_count (snd (collect_loop xs ?b)))) (batch_tasks (snd (collect_loop xs ?b)))
       = take (nat (batch_count ?b)) (batch_tasks ?b) @ take (nat (16 - batch_count ?b)) xs"
      using 1(1)[OF True refl refl _ ] x xs pop True 1(4-) by (simp add: Let_def BATCH_SIZE_def)
    also have "take (nat (batch_count ?b)) (batch_tasks ?b) = take (nat (batch_count batch)) (batch_tasks batch) @ [x]"
    proof -
      have "nat (batch_count batch + 1) = Suc (nat (batch_count batch))" using 1(4) by simp
      then show ?thesis using lt 1(6) by (simp add: take_Suc_conv_app_nth)
    qed
    also have "(take (nat (batch_count batch)) (batch_tasks batch) @ [x]) @ take (nat (16 - batch_count ?b)) xs
       = take (nat (batch_count batch)) (batch_tasks batch) @ take (nat (16 - batch_count batch)) q"
    proof -
      have "nat (16 - batch_count batch) = Suc (nat (16 - (batch_count batch + 1)))" using True by (auto simp: BATCH_SIZE_def)
      then show ?thesis by (simp add: q)
    qed
    finally show ?thesis by (simp add: step)
  qed
qed

lemma collect_loop_count_ge:
  "batch_count batch \<le> batch_count (snd (collect_loop q batch))"
proof (induction q batch rule: collect_loop.induct)
  case (1 q batch)
  show ?case
  proof (cases "batch_count batch < BATCH_SIZE \<and> \<not> queue_is_empty q")
    case False
    then show ?thesis by (subst collect_loop.simps) auto
  next
    case True
    note ih1 = 1(1) [OF True refl refl] and ih2 = 1(2) [OF True refl refl]
    show ?thesis using True ih1 ih2
      by (subst collect_loop.simps) (auto simp: Let_def)
  qed
qed

lemma collect_loop_length:
  "length (batch_tasks (snd (collect_loop q batch))) = length (batch_tasks batch)"
proof (induction q batch rule: collect_loop.induct)
  case (1 q batch)
  then show ?case
    by (subst collect_loop.simps) (auto simp: Let_def)
qed

lemma collect_ready_tasks_batch_general:
  "fst (collect_ready_tasks_batch st b) = batch_count (snd (snd (collect_ready_tasks_batch st b)))
   \<and> 0 \<le> fst (collect_ready_tasks_batch st b)
   \<and> fst (collect_ready_tasks_batch st b) \<le> 16
   \<and> (fst (collect_ready_tasks_batch st b) < 16
        \<longrightarrow> ready_queue (fst (snd (collect_ready_tasks_batch st b))) = [])"
  using collect_loop_count_ge [of "b\<lparr>batch_count := 0\<rparr>" "ready_queue st"]
    collect_loop_count_le [of "b\<lparr>batch_count := 0\<rparr>" "ready_queue st"]
    collect_loop_short_empty [of "ready_queue st" "b\<lparr>batch_count := 0\<rparr>"]
  by (simp add: collect_ready_tasks_batch_def Let_def)

lemma collect_ready_tasks_batch_nonnull:
  assumes "NULL \<notin> set (ready_queue st)" and "length (batch_tasks b) = 16"
  shows "fst (collect_ready_tasks_batch st b) = min 16 (int (length (ready_queue st)))"
    and "ready_queue (fst (snd (collect_ready_tasks_batch st b))) = drop 16 (ready_queue st)"
    and "length (batch_tasks (snd (snd (collect_ready_tasks_batch st b)))) = 16"
    and "take (nat (fst (collect_ready_tasks_batch st b)))
           (batch_tasks (snd (snd (collect_ready_tasks_batch st b)))) = take 16 (ready_queue st)"
  using assms
    collect_loop_count [of "ready_queue st" "b\<lparr>batch_count := 0\<rparr>"]
    collect_loop_queue [of "ready_queue st" "b\<lparr>batch_count := 0\<rparr>"]
    collect_loop_tasks [of "ready_queue st" "b\<lparr>batch_count := 0\<rparr>"]
    collect_loop_length [of "ready_queue st" "b\<lparr>batch_count := 0\<rparr>"]
  by (simp_all add: collect_ready_tasks_batch_def Let_def)

lemma collect_ready_tasks_batch_four:
  assumes len: "length (ready_queue st) = 50" and nn: "NULL \<notin> set (ready_queue st)"
    and arr: "length (batch_tasks b) = 16"
  defines "c1 \<equiv> collect_ready_tasks_batch st b"
  defines "c2 \<equiv> collect_ready_tasks_batch (fst (snd c1)) (snd (snd c1))"
  defines "c3 \<equiv> collect_ready_tasks_batch (fst (snd c2)) (snd (snd c2))"
  defines "c4 \<equiv> collect_ready_tasks_batch (fst (snd c3)) (snd (snd c3))"
  shows "[fst c1, fst c2, fst c3, fst c4] = [16, 16, 16, 2]
    \<and> ready_queue (fst (snd c3)) \<noteq> [] \<and> ready_queue (fst (snd c4)) = []
    \<and> take (nat (fst c1)) (batch_tasks (snd (snd c1))) @ take (nat (fst c2)) (batch_tasks (snd (snd c2)))
      @ take (nat (fst c3)) (batch_tasks (snd (snd c3))) @ take (nat (fst c4)) (batch_tasks (snd (snd c4)))
      = ready_queue st"
proof -
  let ?q = "ready_queue st"
  note n1 = collect_ready_tasks_batch_nonnull [OF nn arr, folded c1_def]
  have nn1: "NULL \<notin> set (ready_queue (fst (snd c1)))"
    using nn by (auto simp: n1(2) dest: in_set_dropD)
  note n2 = collect_ready_tasks_batch_nonnull [OF nn1 n1(3), folded c2_def]
  have nn2: "NULL \<notin> set (ready_queue (fst (snd c2)))"
    using nn1 by (auto simp: n2(2) dest: in_set_dropD)
  note n3 = collect_ready_tasks_batch_nonnull [OF nn2 n2(3), folded c3_def]
  have nn3: "NULL \<notin> set (ready_queue (fst (snd c3)))"
    using nn2 by (auto simp: n3(2) dest: in_set_dropD)
  note n4 = collect_ready_tasks_batch_nonnull [OF nn3 n3(3), folded c4_def]
  have q1: "ready_queue (fst (snd c1)) = drop 16 ?q" by (simp add: n1(2))
  have q2: "ready_queue (fst (snd c2)) = drop 32 ?q" by (simp add: n2(2) q1)
  have q3: "ready_queue (fst (snd c3)) = drop 48 ?q" by (simp add: n3(2) q2)
  have q4: "ready_queue (fst (snd c4)) = drop 64 ?q" by (simp add: n4(2) q3)
  have sizes: "[fst c1, fst c2, fst c3, fst c4] = [16, 16, 16, 2]"
    by (simp add: n1(1) n2(1) n3(1) n4(1) q1 q2 q3 len)
  have e3: "ready_queue (fst (snd c3)) \<noteq> []" by (simp add: q3 len)
  have e4: "ready_queue (fst (snd c4)) = []" by (simp add: q4 len)
  have "take 16 ?q @ take 16 (drop 16 ?q) @ take 16 (drop 32 ?q) @ take 16 (drop 48 ?q)
      = take 64 ?q"
    using take_add [of 16 16 ?q] take_add [of 32 16 ?q] take_add [of 48 16 ?q] by simp
  hence cat: "take (nat (fst c1)) (batch_tasks (snd (snd c1))) @ take (nat (fst c2)) (batch_tasks (snd (snd c2)))
      @ take (nat (fst c3)) (batch_tasks (snd (snd c3))) @ take (nat (fst c4)) (batch_tasks (snd (snd c4)))
      = ready_queue st"
    by (simp add: n1(4) n2(4) n3(4) n4(4) q1 q2 q3 len)
  from sizes e3 e4 cat show ?thesis by blast
qed

text \<open>
  Claim C9. Each call of \<open>collect_ready_tasks_batch\<close> returns the size of the batch it
  collected, which is at most \<open>BATCH_SIZE\<close> = 16, and is smaller than 16 only when
  the ready queue has become empty. Consequently, four successive calls on a queue
  holding 50 ready (non-\<open>NULL\<close>) items collect batches of sizes 16, 16, 16 and 2, in
  that order; the queue is not yet empty after the third call and is empty after the
  fourth, and the four batches together are the queue's items in order.
\<close>

theorem collect_ready_tasks_batch_sizes:
  "(fst (collect_ready_tasks_batch st b) = batch_count (snd (snd (collect_ready_tasks_batch st b)))
    \<and> 0 \<le> fst (collect_ready_tasks_batch st b)
    \<and> fst (collect_ready_tasks_batch st b) \<le> BATCH_SIZE
    \<and> (fst (collect_ready_tasks_batch st b) < BATCH_SIZE
         \<longrightarrow> ready_queue (fst (snd (collect_ready_tasks_batch st b))) = []))
   \<and> (length (ready_queue st) = 50 \<and> NULL \<notin> set (ready_queue st)
        \<and> length (batch_tasks b) = 16 \<longrightarrow>
       (let c1 = collect_ready_tasks_batch st b;
            c2 = collect_ready_tasks_batch (fst (snd c1)) (snd (snd c1));
            c3 = collect_ready_tasks_batch (fst (snd c2)) (snd (snd c2));
            c4 = collect_ready_tasks_batch (fst (snd c3)) (snd (snd c3))
        in [fst c1, fst c2, fst c3, fst c4] = [16, 16, 16, 2]
           \<and> ready_queue (fst (snd c3)) \<noteq> [] \<and> ready_queue (fst (snd c4)) = []
           \<and> take (nat (fst c1)) (batch_tasks (snd (snd c1)))
               @ take (nat (fst c2)) (batch_tasks (snd (snd c2)))
               @ take (nat (fst c3)) (batch_tasks (snd (snd c3)))
               @ take (nat (fst c4)) (batch_tasks (snd (snd c4)))
             = ready_queue st))"
proof -
  have g: "fst (collect_ready_tasks_batch st b) = batch_count (snd (snd (collect_ready_tasks_batch st b)))
    \<and> 0 \<le> fst (collect_ready_tasks_batch st b)
    \<and> fst (collect_ready_tasks_batch st b) \<le> BATCH_SIZE
    \<and> (fst (collect_ready_tasks_batch st b) < BATCH_SIZE
         \<longrightarrow> ready_queue (fst (snd (collect_ready_tasks_batch st b))) = [])"
    using collect_ready_tasks_batch_general [of st b] by (simp add: BATCH_SIZE_def)
  have f: "length (ready_queue st) = 50 \<and> NULL \<notin> set (ready_queue st)
        \<and> length (batch_tasks b) = 16 \<longrightarrow>
       (let c1 = collect_ready_tasks_batch st b;
            c2 = collect_ready_tasks_batch (fst (snd c1)) (snd (snd c1));
            c3 = collect_ready_tasks_batch (fst (snd c2)) (snd (snd c2));
            c4 = collect_ready_tasks_batch (fst (snd c3)) (snd (snd c3))
        in [fst c1, fst c2, fst c3, fst c4] = [16, 16, 16, 2]
           \<and> ready_queue (fst (snd c3)) \<noteq> [] \<and> ready_queue (fst (snd c4)) = []
           \<and> take (nat (fst c1)) (batch_tasks (snd (snd c1)))
               @ take (nat (fst c2)) (batch_tasks (snd (snd c2)))
               @ take (nat (fst c3)) (batch_tasks (snd (snd c3)))
               @ take (nat (fst c4)) (batch_tasks (snd (snd c4)))
             = ready_queue st)"
    unfolding Let_def using collect_ready_tasks_batch_four [of st b] by blast
  from g f show ?thesis by (rule conjI)
qed

theorem collect_ready_tasks_batch_sizes_witness:
  "length (ready_queue \<lparr>ready_queue = map Suc [0..<50]\<rparr>) = 50
   \<and> NULL \<notin> set (ready_queue \<lparr>ready_queue = map Suc [0..<50]\<rparr>)
   \<and> length (batch_tasks \<lparr>batch_tasks = replicate 16 NULL, batch_count = 0\<rparr>) = 16
   \<and> (let c1 = collect_ready_tasks_batch \<lparr>ready_queue = map Suc [0..<50]\<rparr>
                  \<lparr>batch_tasks = replicate 16 NULL, batch_count = 0\<rparr>;
           c2 = collect_ready_tasks_batch (fst (snd c1)) (snd (snd c1));
           c3 = collect_ready_tasks_batch (fst (snd c2)) (snd (snd c2));
           c4 = collect_ready_tasks_batch (fst (snd c3)) (snd (snd c3))
       in [fst c1, fst c2, fst c3, fst c4] = [16, 16, 16, 2]
          \<and> ready_queue (fst (snd c4)) = [])
   \<and> fst (collect_ready_tasks_batch \<lparr>ready_queue = [5, 6]\<rparr>
         \<lparr>batch_tasks = replicate 16 NULL, batch_count = 9\<rparr>) < BATCH_SIZE
   \<and> ready_queue (fst (snd (collect_ready_tasks_batch \<lparr>ready_queue = [5, 6]\<rparr>
         \<lparr>batch_tasks = replicate 16 NULL, batch_count = 9\<rparr>))) = []"
proof -
  let ?st = "\<lparr>ready_queue = map Suc [0..<50]\<rparr>"
  let ?b = "\<lparr>batch_tasks = replicate 16 NULL, batch_count = 0\<rparr>"
  let ?st' = "\<lparr>ready_queue = [5, 6]\<rparr>"
  let ?b' = "\<lparr>batch_tasks = replicate 16 NULL, batch_count = 9\<rparr>"
  have h: "length (ready_queue ?st) = 50 \<and> NULL \<notin> set (ready_queue ?st)
     \<and> length (batch_tasks ?b) = 16"
    by (simp add: NULL_def)
  have "fst (collect_ready_tasks_batch ?st' ?b') = 2"
    using collect_ready_tasks_batch_nonnull(1) [of ?st' ?b'] by (simp add: NULL_def)
  then have h': "fst (collect_ready_tasks_batch ?st' ?b') < BATCH_SIZE"
    by (simp add: BATCH_SIZE_def)
  have e: "ready_queue (fst (snd (collect_ready_tasks_batch ?st' ?b'))) = []"
    using collect_ready_tasks_batch_sizes [of ?st' ?b', THEN conjunct1] h' by blast
  from collect_ready_tasks_batch_sizes [of ?st ?b, THEN conjunct2, THEN mp, OF h] h h' e
  show ?thesis by (simp add: Let_def)
qed

section \<open>Properties of the work-stealing queue\<close>

lemma sint_diff_nonneg:
  fixes b t :: cint
  assumes "sint t \<le> sint b" "0 \<le> sint t"
  shows "sint (b - t) = sint b - sint t"
proof -
  have "sint b < 2 ^ 31" using sint_lt [of b] by simp
  then have "signed_take_bit 31 (sint b - sint t) = sint b - sint t"
    using assms by (intro signed_take_bit_int_eq_self) auto
  then show ?thesis by (simp add: sint_word_ariths)
qed

lemma uint_scast_nonneg:
  fixes w :: cint
  assumes "0 \<le> sint w"
  shows "uint (scast w :: size_t) = sint w"
proof -
  have "sint w < 2 ^ 31" using sint_lt [of w] by simp
  then have "sint w < 2 ^ LENGTH(64)" by simp
  then have m: "sint w mod 2 ^ LENGTH(64) = sint w" using assms by (rule_tac mod_pos_pos_trivial)
  have "uint (scast w :: size_t) = sint w mod 2 ^ LENGTH(64)"
    by (simp only: scast_eq uint_word_of_int)
  with m show ?thesis by (simp only:)
qed

lemma ws_push_wf:
  assumes t0: "0 \<le> sint (top_w q)" and tb: "sint (top_w q) \<le> sint (bottom q)"
    and cap: "sint (bottom q) - sint (top_w q) \<le> uint (capacity q)"
  shows "ws_push q task =
     (if sint (bottom q) - sint (top_w q) = uint (capacity q) then (- 1, q)
      else (0, q\<lparr>tasks := (tasks q)[nat (sint (bottom q)) mod unat (capacity q) := task],
                 bottom := bottom q + 1\<rparr>))"
proof -
  have d: "uint (scast (bottom q - top_w q) :: size_t) = sint (bottom q) - sint (top_w q)"
    using sint_diff_nonneg [OF tb t0] uint_scast_nonneg [of "bottom q - top_w q"] tb by simp
  have full: "capacity q \<le> (scast (bottom q - top_w q) :: size_t) \<longleftrightarrow>
     sint (bottom q) - sint (top_w q) = uint (capacity q)"
    using cap d by (auto simp: word_le_def)
  have b0: "0 \<le> sint (bottom q)" using t0 tb by simp
  have "unat (scast (bottom q) :: size_t) = nat (uint (scast (bottom q) :: size_t))"
    by (rule unat_eq_nat_uint)
  then have u: "unat (scast (bottom q) :: size_t) = nat (sint (bottom q))"
    by (simp only: uint_scast_nonneg [OF b0])
  have "unat ((scast (bottom q) :: size_t) mod capacity q)
      = unat (scast (bottom q) :: size_t) mod unat (capacity q)"
    by (rule unat_mod)
  then have "unat ((scast (bottom q) :: size_t) mod capacity q)
      = nat (sint (bottom q)) mod unat (capacity q)"
    by (simp only: u)
  then show ?thesis using full by (simp add: ws_push_def Let_def)
qed

text \<open>
  The deque invariant (\<open>0 \<le> top \<le> bottom\<close>, at most \<open>capacity\<close> items, an array of
  \<open>capacity\<close> slots) is kept by \<open>ws_push\<close>, as long as \<open>bottom + 1\<close> does not
  overflow.
\<close>

lemma ws_push_preserves_invariant:
  assumes "0 \<le> sint (top_w q)" and "sint (top_w q) \<le> sint (bottom q)"
    and "sint (bottom q) - sint (top_w q) \<le> uint (capacity q)"
    and "length (tasks q) = unat (capacity q)"
    and "sint (bottom q) < 2 ^ 31 - 1"
  shows "0 \<le> sint (top_w (snd (ws_push q task)))
    \<and> sint (top_w (snd (ws_push q task))) \<le> sint (bottom (snd (ws_push q task)))
    \<and> sint (bottom (snd (ws_push q task))) - sint (top_w (snd (ws_push q task)))
        \<le> uint (capacity (snd (ws_push q task)))
    \<and> length (tasks (snd (ws_push q task))) = unat (capacity (snd (ws_push q task)))"
  using assms ws_push_wf [OF assms(1-3), of task] sint_succ [OF assms(5)]
  by (auto split: if_splits)

text \<open>
  Claim C7. On a deque state whose indices satisfy the deque invariant
  (\<open>0 \<le> top \<le> bottom\<close>, logical size \<open>bottom - top\<close> at most \<open>capacity\<close>, an array of
  \<open>capacity\<close> slots), \<open>ws_push\<close> returns \<open>-1\<close> exactly when \<open>bottom - top\<close> equals
  the capacity, and then leaves the whole deque (top, bottom, every slot) unchanged;
  otherwise it writes the item into slot \<open>bottom mod capacity\<close>, which is inside the
  array, stores \<open>bottom + 1\<close> (the successor of \<open>bottom\<close>, unless \<open>bottom\<close> is the
  largest \<open>int\<close>) and returns \<open>0\<close>.
\<close>

theorem ws_push_full_or_publish:
  assumes "0 \<le> sint (top_w q)" and "sint (top_w q) \<le> sint (bottom q)"
    and "sint (bottom q) - sint (top_w q) \<le> uint (capacity q)"
    and "length (tasks q) = unat (capacity q)"
  shows "ws_push q task =
     (if sint (bottom q) - sint (top_w q) = uint (capacity q) then (- 1, q)
      else (0, q\<lparr>tasks := (tasks q)[nat (sint (bottom q)) mod unat (capacity q) := task],
                 bottom := bottom q + 1\<rparr>))
    \<and> (fst (ws_push q task) = - 1
         \<longleftrightarrow> sint (bottom q) - sint (top_w q) = uint (capacity q))
    \<and> (sint (bottom q) - sint (top_w q) \<noteq> uint (capacity q)
         \<longrightarrow> nat (sint (bottom q)) mod unat (capacity q) < length (tasks q))
    \<and> (sint (bottom q) - sint (top_w q) \<noteq> uint (capacity q) \<and> sint (bottom q) < 2 ^ 31 - 1
         \<longrightarrow> sint (bottom (snd (ws_push q task))) = sint (bottom q) + 1)"
proof -
  have "sint (bottom q) - sint (top_w q) \<noteq> uint (capacity q) \<and> sint (bottom q) < 2 ^ 31 - 1
         \<longrightarrow> sint (bottom (snd (ws_push q task))) = sint (bottom q) + 1"
    using sint_succ [of "bottom q"] by (simp add: ws_push_wf [OF assms(1-3)])
  moreover
  have "fst (ws_push q task) = - 1
         \<longleftrightarrow> sint (bottom q) - sint (top_w q) = uint (capacity q)"
    by (simp add: ws_push_wf [OF assms(1-3)])
  moreover
  have "sint (bottom q) - sint (top_w q) \<noteq> uint (capacity q) \<longrightarrow> capacity q \<noteq> 0"
    using assms(2,3) by auto
  then have "sint (bottom q) - sint (top_w q) \<noteq> uint (capacity q) \<longrightarrow> 0 < unat (capacity q)"
    by (simp add: unat_gt_0)
  then have "sint (bottom q) - sint (top_w q) \<noteq> uint (capacity q)
         \<longrightarrow> nat (sint (bottom q)) mod unat (capacity q) < length (tasks q)"
    by (simp add: assms(4))
  ultimately show ?thesis using ws_push_wf [OF assms(1-3), of task] by blast
qed

theorem ws_push_full_or_publish_witness:
  "0 \<le> sint (top_w \<lparr>tasks = [0, 0, 0, 0], top_w = 2, bottom = 5, capacity = 4\<rparr>)
   \<and> sint (top_w \<lparr>tasks = [0, 0, 0, 0], top_w = 2, bottom = 5, capacity = 4\<rparr>)
       \<le> sint (bottom \<lparr>tasks = [0, 0, 0, 0], top_w = 2, bottom = 5, capacity = 4\<rparr>)
   \<and> sint (bottom \<lparr>tasks = [0, 0, 0, 0], top_w = 2, bottom = 5, capacity = 4\<rparr>)
         - sint (top_w \<lparr>tasks = [0, 0, 0, 0], top_w = 2, bottom = 5, capacity = 4\<rparr>)
       \<le> uint (capacity \<lparr>tasks = [0, 0, 0, 0], top_w = 2, bottom = 5, capacity = 4\<rparr>)
   \<and> length (tasks \<lparr>tasks = [0, 0, 0, 0], top_w = 2, bottom = 5, capacity = 4\<rparr>)
       = unat (capacity \<lparr>tasks = [0, 0, 0, 0], top_w = 2, bottom = 5, capacity = 4\<rparr>)
   \<and> ws_push \<lparr>tasks = [0, 0, 0, 0], top_w = 2, bottom = 5, capacity = 4\<rparr> 7
       = (0, \<lparr>tasks = [0, 7, 0, 0], top_w = 2, bottom = 6, capacity = 4\<rparr>)
   \<and> sint (bottom (snd (ws_push \<lparr>tasks = [0, 0, 0, 0], top_w = 2, bottom = 5, capacity = 4\<rparr> 7)))
       = 6
   \<and> ws_push \<lparr>tasks = [0, 7, 8, 9], top_w = 1, bottom = 5, capacity = 4\<rparr> 7
       = (- 1, \<lparr>tasks = [0, 7, 8, 9], top_w = 1, bottom = 5, capacity = 4\<rparr>)"
proof -
  let ?q = "\<lparr>tasks = [0, 0, 0, 0], top_w = 2, bottom = 5, capacity = 4\<rparr>"
  let ?r = "\<lparr>tasks = [0, 7, 8, 9], top_w = 1, bottom = 5, capacity = 4\<rparr>"
  have h1: "0 \<le> sint (top_w ?q)" by simp
  have h2: "sint (top_w ?q) \<le> sint (bottom ?q)" by simp
  have h3: "sint (bottom ?q) - sint (top_w ?q) \<le> uint (capacity ?q)" by simp
  have h4: "length (tasks ?q) = unat (capacity ?q)" by simp
  note t = ws_push_full_or_publish [OF h1 h2 h3 h4, of 7]
  have w1: "ws_push ?q 7 = (0, \<lparr>tasks = [0, 7, 0, 0], top_w = 2, bottom = 6, capacity = 4\<rparr>)"
    using t [THEN conjunct1] by simp
  have h5: "sint (bottom ?q) - sint (top_w ?q) \<noteq> uint (capacity ?q)
      \<and> sint (bottom ?q) < 2 ^ 31 - 1"
    by simp
  have "sint (bottom (snd (ws_push ?q 7))) = sint (bottom ?q) + 1"
    using t [THEN conjunct2, THEN conjunct2, THEN conjunct2, THEN mp, OF h5] .
  then have w2: "sint (bottom (snd (ws_push ?q 7))) = 6"
    by simp
  have k1: "0 \<le> sint (top_w ?r)" by simp
  have k2: "sint (top_w ?r) \<le> sint (bottom ?r)" by simp
  have k3: "sint (bottom ?r) - sint (top_w ?r) \<le> uint (capacity ?r)" by simp
  have k4: "length (tasks ?r) = unat (capacity ?r)" by simp
  have w3: "ws_push ?r 7 = (- 1, ?r)"
    using ws_push_full_or_publish [OF k1 k2 k3 k4, of 7, THEN conjunct1] by simp
  from h1 h2 h3 h4 w1 w2 w3 show ?thesis by blast
qed

lemma ws_steal_step_frame:
  "bottom (fst (ws_steal_step q pc)) = bottom q
   \<and> tasks (fst (ws_steal_step q pc)) = tasks q
   \<and> capacity (fst (ws_steal_step q pc)) = capacity q"
  by (simp add: ws_steal_step_def Let_def split: steal_pc.splits)

lemma ws_steal_step_only_cas:
  "(\<forall>t task. pc \<noteq> Steal_cas t task) \<Longrightarrow> fst (ws_steal_step q pc) = q"
  by (simp add: ws_steal_step_def Let_def split: steal_pc.splits)

lemma ws_steal_step_cas:
  "ws_steal_step q (Steal_cas t task) =
     (if top_w q = t then (q\<lparr>top_w := top_w q + 1\<rparr>, Steal_return task)
      else (q, Steal_return NULL))"
  by (simp add: ws_steal_step_def)

lemma ws_steal_step_read_task:
  assumes "0 \<le> sint t" and "length (tasks q) = unat (capacity q)" and "capacity q \<noteq> 0"
  shows "ws_steal_step q (Steal_read_task t) =
     (q, Steal_cas t (tasks q ! (nat (sint t) mod unat (capacity q))))"
proof -
  have u: "unat (scast t :: size_t) = nat (sint t)"
    using uint_scast_nonneg [OF assms(1)] unat_eq_nat_uint [of "scast t :: size_t"]
    by (simp only:)
  have i: "unat ((scast t :: size_t) mod capacity q) = nat (sint t) mod unat (capacity q)"
    using unat_mod [of "scast t :: size_t" "capacity q"] by (simp only: u)
  have lt: "nat (sint t) mod unat (capacity q) < length (tasks q)"
    using assms(3) by (simp add: assms(2) unat_gt_0)
  show ?thesis
    using lt assms(3) by (simp add: ws_steal_step_def Let_def i)
qed

lemma ws_steal_alone:
  assumes "0 \<le> sint (top_w q)" "length (tasks q) = unat (capacity q)" 
  shows "ws_steal q =
     (if bottom q \<le>s top_w q then (q, Steal_return NULL)
      else if capacity q = 0 then (q, Steal_trap)
      else (q\<lparr>top_w := top_w q + 1\<rparr>,
            Steal_return (tasks q ! (nat (sint (top_w q)) mod unat (capacity q)))))"
proof -
  have u: "unat (scast (top_w q) :: size_t) = nat (sint (top_w q))"
    using uint_scast_nonneg [OF assms(1)] unat_eq_nat_uint [of "scast (top_w q) :: size_t"]
    by (simp only:)
  have i: "unat ((scast (top_w q) :: size_t) mod capacity q) = nat (sint (top_w q)) mod unat (capacity q)"
    using unat_mod [of "scast (top_w q) :: size_t" "capacity q"] by (simp only: u)
  have lt: "capacity q \<noteq> 0 \<Longrightarrow> nat (sint (top_w q)) mod unat (capacity q) < length (tasks q)"
    by (simp add: assms(2) unat_gt_0)
  show ?thesis
    using lt by (auto simp add: ws_steal_def ws_steal_step_def Let_def numeral_eq_Suc i)
qed

text \<open>A steal that runs alone keeps the deque invariant.\<close>

lemma ws_steal_preserves_invariant:
  assumes "0 \<le> sint (top_w q)" and "sint (top_w q) \<le> sint (bottom q)"
    and "sint (bottom q) - sint (top_w q) \<le> uint (capacity q)"
    and "length (tasks q) = unat (capacity q)"
  shows "0 \<le> sint (top_w (fst (ws_steal q)))
    \<and> sint (top_w (fst (ws_steal q))) \<le> sint (bottom (fst (ws_steal q)))
    \<and> sint (bottom (fst (ws_steal q))) - sint (top_w (fst (ws_steal q)))
        \<le> uint (capacity (fst (ws_steal q)))
    \<and> length (tasks (fst (ws_steal q))) = unat (capacity (fst (ws_steal q)))"
proof (cases "bottom q \<le>s top_w q")
  case True
  then show ?thesis using assms ws_steal_alone [OF assms(1,4)] by simp
next
  case False
  then have lt: "sint (top_w q) < sint (bottom q)" by (simp add: word_sle_eq)
  have "sint (bottom q) < 2 ^ 31" using sint_lt [of "bottom q"] by simp
  with lt have "sint (top_w q) < 2 ^ 31 - 1" by simp
  from sint_succ [OF this] have s: "sint (top_w q + 1) = sint (top_w q) + 1" .
  show ?thesis using assms False lt s ws_steal_alone [OF assms(1,4)]
    by (auto split: if_splits)
qed
text \<open>
  Claim C10. No step of \<open>ws_steal\<close> modifies \<open>bottom\<close> or a slot of the task array
  (or the capacity), and only the compare-and-swap step modifies the deque at all. The
  compare-and-swap step, when \<open>top\<close> still has the value loaded, increments \<open>top\<close> by
  exactly one and returns the task read from slot \<open>top mod capacity\<close>; when it loses,
  it returns \<open>NULL\<close> and leaves the whole deque unchanged. A steal that finds
  \<open>top \<ge> bottom\<close> returns \<open>NULL\<close> and leaves the whole deque unchanged. A steal that
  runs alone on a deque with \<open>top < bottom\<close> returns the item of slot
  \<open>top mod capacity\<close> and changes nothing but \<open>top\<close>, which it increments by one
  (without overflow, since \<open>top < bottom\<close>).
\<close>

theorem ws_steal_frame:
  "bottom (fst (ws_steal_step q pc)) = bottom q
   \<and> tasks (fst (ws_steal_step q pc)) = tasks q
   \<and> capacity (fst (ws_steal_step q pc)) = capacity q
   \<and> ((\<forall>t' task'. pc \<noteq> Steal_cas t' task') \<longrightarrow> fst (ws_steal_step q pc) = q)
   \<and> ws_steal_step q (Steal_cas t task) =
        (if top_w q = t then (q\<lparr>top_w := top_w q + 1\<rparr>, Steal_return task)
         else (q, Steal_return NULL))
   \<and> ws_steal_step q (Steal_load_bottom t) =
        (if bottom q \<le>s t then (q, Steal_return NULL) else (q, Steal_read_task t))
   \<and> (0 \<le> sint t \<and> length (tasks q) = unat (capacity q) \<and> capacity q \<noteq> 0 \<longrightarrow>
        ws_steal_step q (Steal_read_task t) =
          (q, Steal_cas t (tasks q ! (nat (sint t) mod unat (capacity q)))))
   \<and> (0 \<le> sint (top_w q) \<and> length (tasks q) = unat (capacity q) \<and> capacity q \<noteq> 0 \<longrightarrow>
        ws_steal q =
          (if bottom q \<le>s top_w q then (q, Steal_return NULL)
           else (q\<lparr>top_w := top_w q + 1\<rparr>,
                 Steal_return (tasks q ! (nat (sint (top_w q)) mod unat (capacity q))))))
   \<and> (\<not> bottom q \<le>s top_w q \<longrightarrow> sint (top_w q + 1) = sint (top_w q) + 1)"
proof -
  have e: "\<not> bottom q \<le>s top_w q \<longrightarrow> sint (top_w q + 1) = sint (top_w q) + 1"
  proof
    assume "\<not> bottom q \<le>s top_w q"
    then have "sint (top_w q) < sint (bottom q)" by (simp add: word_sle_eq)
    moreover have "sint (bottom q) < 2 ^ 31" using sint_lt [of "bottom q"] by simp
    ultimately have "sint (top_w q) < 2 ^ 31 - 1" by simp
    then show "sint (top_w q + 1) = sint (top_w q) + 1" by (rule sint_succ)
  qed
  have a: "ws_steal_step q (Steal_load_bottom t) =
        (if bottom q \<le>s t then (q, Steal_return NULL) else (q, Steal_read_task t))"
    by (simp add: ws_steal_step_def Let_def)
  have b: "0 \<le> sint t \<and> length (tasks q) = unat (capacity q) \<and> capacity q \<noteq> 0 \<longrightarrow>
        ws_steal_step q (Steal_read_task t) =
          (q, Steal_cas t (tasks q ! (nat (sint t) mod unat (capacity q))))"
    using ws_steal_step_read_task [of t q] by blast
  have c: "0 \<le> sint (top_w q) \<and> length (tasks q) = unat (capacity q) \<and> capacity q \<noteq> 0 \<longrightarrow>
        ws_steal q =
          (if bottom q \<le>s top_w q then (q, Steal_return NULL)
           else (q\<lparr>top_w := top_w q + 1\<rparr>,
                 Steal_return (tasks q ! (nat (sint (top_w q)) mod unat (capacity q)))))"
    using ws_steal_alone [of q] by simp
  have d: "(\<forall>t' task'. pc \<noteq> Steal_cas t' task') \<longrightarrow> fst (ws_steal_step q pc) = q"
    using ws_steal_step_only_cas [of pc q] by blast
  from ws_steal_step_frame [of q pc] d ws_steal_step_cas [of q t task] a b c e
  show ?thesis by blast
qed

theorem ws_steal_frame_witness:
  "0 \<le> sint (top_w \<lparr>tasks = [10, 11, 12, 13], top_w = 2, bottom = 5, capacity = 4\<rparr>)
   \<and> length (tasks \<lparr>tasks = [10, 11, 12, 13], top_w = 2, bottom = 5, capacity = 4\<rparr>)
       = unat (capacity \<lparr>tasks = [10, 11, 12, 13], top_w = 2, bottom = 5, capacity = 4\<rparr>)
   \<and> (\<forall>t' task'. Steal_load_top \<noteq> Steal_cas t' task')
   \<and> fst (ws_steal_step \<lparr>tasks = [10, 11, 12, 13], top_w = 2, bottom = 5, capacity = 4\<rparr>
         Steal_load_top)
       = \<lparr>tasks = [10, 11, 12, 13], top_w = 2, bottom = 5, capacity = 4\<rparr>
   \<and> ws_steal_step \<lparr>tasks = [10, 11, 12, 13], top_w = 2, bottom = 5, capacity = 4\<rparr>
         (Steal_read_task 2)
       = (\<lparr>tasks = [10, 11, 12, 13], top_w = 2, bottom = 5, capacity = 4\<rparr>, Steal_cas 2 12)
   \<and> ws_steal \<lparr>tasks = [10, 11, 12, 13], top_w = 2, bottom = 5, capacity = 4\<rparr>
       = (\<lparr>tasks = [10, 11, 12, 13], top_w = 3, bottom = 5, capacity = 4\<rparr>, Steal_return 12)"
proof -
  let ?q = "\<lparr>tasks = [10, 11, 12, 13], top_w = 2, bottom = 5, capacity = 4\<rparr>"
  note t = ws_steal_frame [of ?q Steal_load_top 2 0]
  have h: "0 \<le> sint (top_w ?q) \<and> length (tasks ?q) = unat (capacity ?q) \<and> capacity ?q \<noteq> 0"
    by simp
  have h2: "0 \<le> sint (2 :: cint) \<and> length (tasks ?q) = unat (capacity ?q) \<and> capacity ?q \<noteq> 0"
    by simp
  have h3: "\<forall>t' task'. Steal_load_top \<noteq> Steal_cas t' task'"
    by simp
  have w1: "fst (ws_steal_step ?q Steal_load_top) = ?q"
    using t h3 by blast
  have "ws_steal_step ?q (Steal_read_task 2) =
          (?q, Steal_cas 2 (tasks ?q ! (nat (sint (2 :: cint)) mod unat (capacity ?q))))"
    using t h2 by blast
  then have w2: "ws_steal_step ?q (Steal_read_task 2) = (?q, Steal_cas 2 12)"
    by simp
  have "ws_steal ?q =
          (if bottom ?q \<le>s top_w ?q then (?q, Steal_return NULL)
           else (?q\<lparr>top_w := top_w ?q + 1\<rparr>,
                 Steal_return (tasks ?q ! (nat (sint (top_w ?q)) mod unat (capacity ?q)))))"
    using t h by blast
  then have w3: "ws_steal ?q
       = (\<lparr>tasks = [10, 11, 12, 13], top_w = 3, bottom = 5, capacity = 4\<rparr>, Steal_return 12)"
    by simp
  from h h3 w1 w2 w3 show ?thesis by blast
qed

end
